theory Spec2Isabelle
  imports Main "HOL-Library.Multiset"
begin

section \<open>Data model\<close>

text \<open>
  \<^verbatim>\<open>getBarHeights\<close> reads every bar height with \<^verbatim>\<open>parseInt\<close>, so a value of the
  \<^verbatim>\<open>heights\<close> array is an integer or \<^verbatim>\<open>NaN\<close>. The relational operators of
  JavaScript are false as soon as one operand is \<^verbatim>\<open>NaN\<close>.
\<close>

datatype jsnum = Num int | NaN

fun js_gt :: "jsnum \<Rightarrow> jsnum \<Rightarrow> bool" where
  "js_gt (Num a) (Num b) = (a > b)"
| "js_gt _ _ = False"

fun js_lt :: "jsnum \<Rightarrow> jsnum \<Rightarrow> bool" where
  "js_lt (Num a) (Num b) = (a < b)"
| "js_lt _ _ = False"

fun js_le :: "jsnum \<Rightarrow> jsnum \<Rightarrow> bool" where
  "js_le (Num a) (Num b) = (a \<le> b)"
| "js_le _ _ = False"

definition all_finite :: "jsnum list \<Rightarrow> bool" where
  "all_finite xs = (NaN \<notin> set xs)"

text \<open>
  The source has no step emitter: an algorithm acts on the bars of the page directly.
  The log below records these actions in the vocabulary of the specification:
  \<^item> \<open>Compare i j\<close>: a relational test between two values of the array is evaluated
    (for a value held in a local variable, the index is the slot it was read from);
  \<^item> \<open>Swap i j\<close>: the destructuring exchange of \<^verbatim>\<open>heights[i]\<close> and \<^verbatim>\<open>heights[j]\<close>
    together with its two \<^verbatim>\<open>updateBarHeight\<close> calls;
  \<^item> \<open>Overwrite i v\<close>: the assignment \<^verbatim>\<open>heights[i] = v\<close> together with
    \<^verbatim>\<open>updateBarHeight(bars[i], v)\<close>;
  \<^item> \<open>MarkFinal i\<close>: the call \<^verbatim>\<open>markAsSorted(bars[i])\<close>.
  Indices are JavaScript numbers that do become negative (\<^verbatim>\<open>low - 1\<close>, \<^verbatim>\<open>j--\<close>), hence
  \<open>int\<close>.
\<close>

datatype step = Compare int int | Swap int int | Overwrite int jsnum | MarkFinal int

text \<open>
  The state of a run:
  \<^item> \<open>heights\<close> is the array \<^verbatim>\<open>const heights = getBarHeights()\<close> that the algorithm works
    on;
  \<^item> \<open>bars\<close> is what the page displays, the value of \<^verbatim>\<open>bar.style.height\<close> of each bar;
    only \<^verbatim>\<open>updateBarHeight\<close> writes it;
  \<^item> \<open>trace\<close> is the log of the actions so far;
  \<^item> \<open>shots\<close> is a history variable that no algorithm reads: for each logged action, the
    pair of \<open>heights\<close> and \<open>bars\<close> as they were when the action was complete.
\<close>

record state =
  heights :: "jsnum list"
  bars :: "jsnum list"
  trace :: "step list"
  shots :: "(jsnum list \<times> jsnum list) list"

text \<open>
  \<^verbatim>\<open>bars\<close> and \<^verbatim>\<open>heights\<close> are both read from the same node list when an algorithm
  starts, so they have the same length \<open>N\<close>. \<^verbatim>\<open>bars[k]\<close> is \<^verbatim>\<open>undefined\<close> for \<open>k\<close>
  outside \<open>[0, N)\<close> and every helper that receives it reads \<^verbatim>\<open>bar.style\<close>, which throws
  a \<^verbatim>\<open>TypeError\<close>. \<open>Threw s\<close> is that exception, with the state reached when it was
  thrown. An out-of-range read of \<^verbatim>\<open>heights\<close> would yield \<^verbatim>\<open>undefined\<close> in JavaScript
  and an out-of-range write would extend the array; the model reports both as \<open>Threw\<close>
  as well, so that a run that ends in \<open>Ok\<close> has kept every access inside \<open>[0, N)\<close>.
\<close>

datatype 'a result = Ok 'a | Threw state

definition bindR :: "'a result \<Rightarrow> ('a \<Rightarrow> 'b result) \<Rightarrow> 'b result" where
  "bindR m f = (case m of Ok x \<Rightarrow> f x | Threw s \<Rightarrow> Threw s)"

fun final :: "state result \<Rightarrow> state" where
  "final (Ok s) = s"
| "final (Threw s) = s"

definition len :: "state \<Rightarrow> int" where
  "len s = int (length (heights s))"

definition inb :: "state \<Rightarrow> int \<Rightarrow> bool" where
  "inb s k = (0 \<le> k \<and> k < len s)"

definition emit :: "step \<Rightarrow> state \<Rightarrow> state" where
  "emit st s = s\<lparr>trace := trace s @ [st], shots := shots s @ [(heights s, bars s)]\<rparr>"

text \<open>\<^verbatim>\<open>updateBarHeight(bars[k], v)\<close>, for a bar that exists.\<close>

definition updateBarHeight :: "int \<Rightarrow> jsnum \<Rightarrow> state \<Rightarrow> state" where
  "updateBarHeight k v s = s\<lparr>bars := (bars s)[nat k := v]\<rparr>"

text \<open>\<open>bar s k\<close>: a helper (\<^verbatim>\<open>highlightBar\<close>, \<^verbatim>\<open>resetBarStyle\<close>, \<^verbatim>\<open>classList\<close>) is applied
  to \<^verbatim>\<open>bars[k]\<close>; its styling is presentation and leaves the state alone.\<close>

definition bar :: "state \<Rightarrow> int \<Rightarrow> unit result" where
  "bar s k = (if inb s k then Ok () else Threw s)"

definition hget :: "state \<Rightarrow> int \<Rightarrow> jsnum result" where
  "hget s k = (if inb s k then Ok (heights s ! nat k) else Threw s)"

text \<open>
  \<^verbatim>\<open>[heights[i], heights[j]] = [heights[j], heights[i]]; updateBarHeight(bars[i], heights[i]);\<close>
  \<^verbatim>\<open>updateBarHeight(bars[j], heights[j])\<close>: the array is exchanged first, and each of the
  two bars is then given the value read back from the array.
\<close>

definition swapBars :: "int \<Rightarrow> int \<Rightarrow> state \<Rightarrow> state result" where
  "swapBars i j s =
     (if inb s i \<and> inb s j then
        (let s1 = s\<lparr>heights := (heights s)[nat i := heights s ! nat j, nat j := heights s ! nat i]\<rparr>;
             s2 = updateBarHeight i (heights s1 ! nat i) s1;
             s3 = updateBarHeight j (heights s2 ! nat j) s2
         in Ok (emit (Swap i j) s3))
      else Threw s)"

text \<open>
  \<^verbatim>\<open>heights[k] = v; updateBarHeight(bars[k], heights[k])\<close>. Two call sites pass the
  local variable that holds \<open>v\<close> in place of \<^verbatim>\<open>heights[k]\<close>, which is the same value.
\<close>

definition overwrite :: "int \<Rightarrow> jsnum \<Rightarrow> state \<Rightarrow> state result" where
  "overwrite k v s =
     (if inb s k then
        (let s1 = s\<lparr>heights := (heights s)[nat k := v]\<rparr>;
             s2 = updateBarHeight k (heights s1 ! nat k) s1
         in Ok (emit (Overwrite k v) s2))
      else Threw s)"

definition markAsSorted :: "int \<Rightarrow> state \<Rightarrow> state result" where
  "markAsSorted k s = (if inb s k then Ok (emit (MarkFinal k) s) else Threw s)"

text \<open>Facts used by the termination proofs of the loops.\<close>

lemma bindR_cong [fundef_cong]:
  "m = m' \<Longrightarrow> (\<And>x. m' = Ok x \<Longrightarrow> f x = f' x) \<Longrightarrow> bindR m f = bindR m' f'"
  by (simp add: bindR_def split: result.splits)

lemma bindR_Ok [simp]: "bindR (Ok x) f = f x"
  by (simp add: bindR_def)

lemma bindR_Threw [simp]: "bindR (Threw s) f = Threw s"
  by (simp add: bindR_def)

lemma bindR_OkE:
  assumes "bindR m f = Ok y"
  obtains x where "m = Ok x" and "f x = Ok y"
  using assms by (cases m) simp_all

lemma len_emit [simp]: "len (emit st s) = len s"
  by (simp add: len_def emit_def)

lemma heights_emit [simp]: "heights (emit st s) = heights s"
  by (simp add: emit_def)

lemma trace_emit [simp]: "trace (emit st s) = trace s @ [st]"
  by (simp add: emit_def)

lemma inb_emit [simp]: "inb (emit st s) k = inb s k"
  by (simp add: inb_def)

lemma swapBars_len: "swapBars i j s = Ok s' \<Longrightarrow> len s' = len s"
  by (auto simp: swapBars_def updateBarHeight_def emit_def len_def Let_def split: if_splits)

lemma overwrite_len: "overwrite k v s = Ok s' \<Longrightarrow> len s' = len s"
  by (auto simp: overwrite_def updateBarHeight_def emit_def len_def Let_def split: if_splits)

lemma markAsSorted_len: "markAsSorted k s = Ok s' \<Longrightarrow> len s' = len s"
  by (auto simp: markAsSorted_def split: if_splits)

section \<open>The algorithms\<close>

subsection \<open>Shared final cascade\<close>

text \<open>\<^verbatim>\<open>for (let i = 0; i < n; i++) markAsSorted(bars[i])\<close>, the last loop of bubble sort
  (\<open>n\<close> is \<^verbatim>\<open>bars.length\<close>) and of shell sort.\<close>

function mark_all :: "int \<Rightarrow> int \<Rightarrow> state \<Rightarrow> state result" where
  "mark_all n i s =
     (if i < n then bindR (markAsSorted i s) (\<lambda>s1. mark_all n (i + 1) s1) else Ok s)"
  by pat_completeness auto
termination
  by (relation "measure (\<lambda>(n, i, s). nat (n - i))") auto

declare mark_all.simps [simp del]

subsection \<open>Bubble sort\<close>

definition bubble_body :: "int \<Rightarrow> state \<Rightarrow> state result" where
  "bubble_body j s =
     bindR (bar s j) (\<lambda>_.
     bindR (bar s (j + 1)) (\<lambda>_.
     bindR (hget s j) (\<lambda>a.
     bindR (hget s (j + 1)) (\<lambda>b.
     if js_gt a b then swapBars j (j + 1) (emit (Compare j (j + 1)) s)
     else Ok (emit (Compare j (j + 1)) s)))))"

lemma bubble_body_len: "bubble_body j s = Ok s' \<Longrightarrow> len s' = len s"
  by (auto simp: bubble_body_def split: if_splits elim!: bindR_OkE dest!: swapBars_len)

function bubble_inner :: "int \<Rightarrow> int \<Rightarrow> state \<Rightarrow> state result" where
  "bubble_inner i j s =
     (if j < len s - i - 1
      then bindR (bubble_body j s) (\<lambda>s1. bubble_inner i (j + 1) s1)
      else Ok s)"
  by pat_completeness auto
termination
  by (relation "measure (\<lambda>(i, j, s). nat (len s - i - 1 - j))")
     (auto dest!: bubble_body_len)

declare bubble_inner.simps [simp del]

lemma bubble_inner_len: "bubble_inner i j s = Ok s' \<Longrightarrow> len s' = len s"
proof (induction i j s arbitrary: s' rule: bubble_inner.induct)
  case (1 i j s)
  from "1.prems" [unfolded bubble_inner.simps [of i j s]] "1.IH" show ?case
    by (fastforce split: if_splits elim!: bindR_OkE dest: bubble_body_len)
qed

function bubble_outer :: "int \<Rightarrow> state \<Rightarrow> state result" where
  "bubble_outer i s =
     (if i < len s then bindR (bubble_inner i 0 s) (\<lambda>s1. bubble_outer (i + 1) s1) else Ok s)"
  by pat_completeness auto
termination
  by (relation "measure (\<lambda>(i, s). nat (len s - i))") (auto dest!: bubble_inner_len)

declare bubble_outer.simps [simp del]

definition bubbleSort :: "state \<Rightarrow> state result" where
  "bubbleSort s = bindR (bubble_outer 0 s) (\<lambda>s1. mark_all (len s1) 0 s1)"

subsection \<open>Selection sort\<close>

definition selection_body :: "int \<Rightarrow> int \<Rightarrow> state \<Rightarrow> (int \<times> state) result" where
  "selection_body j minIndex s =
     bindR (bar s j) (\<lambda>_.
     bindR (bar s minIndex) (\<lambda>_.
     bindR (hget s j) (\<lambda>a.
     bindR (hget s minIndex) (\<lambda>m.
     Ok (if js_lt a m then j else minIndex, emit (Compare j minIndex) s)))))"

lemma selection_body_len: "selection_body j m s = Ok (m', s') \<Longrightarrow> len s' = len s"
  by (auto simp: selection_body_def elim!: bindR_OkE)

function selection_inner :: "int \<Rightarrow> int \<Rightarrow> state \<Rightarrow> (int \<times> state) result" where
  "selection_inner j minIndex s =
     (if j < len s
      then bindR (selection_body j minIndex s) (\<lambda>(m, s1). selection_inner (j + 1) m s1)
      else Ok (minIndex, s))"
  by pat_completeness auto
termination
  by (relation "measure (\<lambda>(j, m, s). nat (len s - j))") (auto dest!: selection_body_len)

declare selection_inner.simps [simp del]

lemma selection_inner_len: "selection_inner j m s = Ok (m', s') \<Longrightarrow> len s' = len s"
proof (induction j m s arbitrary: m' s' rule: selection_inner.induct)
  case (1 j m s)
  from "1.prems" [unfolded selection_inner.simps [of j m s]] "1.IH" show ?case
    by (fastforce split: if_splits elim!: bindR_OkE dest: selection_body_len)
qed

definition selection_step :: "int \<Rightarrow> state \<Rightarrow> state result" where
  "selection_step i s =
     bindR (selection_inner (i + 1) i s) (\<lambda>(minIndex, s1).
     bindR (if minIndex \<noteq> i then swapBars i minIndex s1 else Ok s1) (\<lambda>s2.
     markAsSorted i s2))"

lemma selection_step_len: "selection_step i s = Ok s' \<Longrightarrow> len s' = len s"
  by (auto simp: selection_step_def split: if_splits elim!: bindR_OkE
      dest!: selection_inner_len swapBars_len markAsSorted_len)

function selection_outer :: "int \<Rightarrow> state \<Rightarrow> state result" where
  "selection_outer i s =
     (if i < len s then bindR (selection_step i s) (\<lambda>s1. selection_outer (i + 1) s1) else Ok s)"
  by pat_completeness auto
termination
  by (relation "measure (\<lambda>(i, s). nat (len s - i))") (auto dest!: selection_step_len)

declare selection_outer.simps [simp del]

definition selectionSort :: "state \<Rightarrow> state result" where
  "selectionSort s = selection_outer 0 s"

subsection \<open>Insertion sort\<close>

definition insertion_shift :: "int \<Rightarrow> jsnum \<Rightarrow> state \<Rightarrow> state result" where
  "insertion_shift j a s = bindR (bar s j) (\<lambda>_. overwrite (j + 1) a s)"

function insertion_while :: "int \<Rightarrow> jsnum \<Rightarrow> int \<Rightarrow> state \<Rightarrow> (int \<times> state) result" where
  "insertion_while i currentHeight j s =
     (if j \<ge> 0 then
        bindR (hget s j) (\<lambda>a.
          if js_gt a currentHeight
          then bindR (insertion_shift j a (emit (Compare j i) s)) (\<lambda>s1.
                 insertion_while i currentHeight (j - 1) s1)
          else Ok (j, emit (Compare j i) s))
      else Ok (j, s))"
  by pat_completeness auto
termination
  by (relation "measure (\<lambda>(i, c, j, s). nat (j + 1))") auto

declare insertion_while.simps [simp del]

definition insertion_step :: "int \<Rightarrow> state \<Rightarrow> state result" where
  "insertion_step i s =
     bindR (hget s i) (\<lambda>currentHeight.
     bindR (bar s i) (\<lambda>_.
     bindR (insertion_while i currentHeight (i - 1) s) (\<lambda>(j, s1).
     bindR (overwrite (j + 1) currentHeight s1) (\<lambda>s2.
     markAsSorted (j + 1) s2))))"

lemma insertion_shift_len: "insertion_shift j a s = Ok s' \<Longrightarrow> len s' = len s"
  by (auto simp: insertion_shift_def elim!: bindR_OkE dest!: overwrite_len)

lemma insertion_while_len: "insertion_while i c j s = Ok (j', s') \<Longrightarrow> len s' = len s"
proof (induction i c j s arbitrary: j' s' rule: insertion_while.induct)
  case (1 i c j s)
  from "1.prems" [unfolded insertion_while.simps [of i c j s]] "1.IH" show ?case
    by (fastforce split: if_splits elim!: bindR_OkE dest: insertion_shift_len)
qed

lemma insertion_step_len: "insertion_step i s = Ok s' \<Longrightarrow> len s' = len s"
  by (auto simp: insertion_step_def elim!: bindR_OkE
      dest!: insertion_while_len overwrite_len markAsSorted_len)

function insertion_outer :: "int \<Rightarrow> state \<Rightarrow> state result" where
  "insertion_outer i s =
     (if i < len s then bindR (insertion_step i s) (\<lambda>s1. insertion_outer (i + 1) s1) else Ok s)"
  by pat_completeness auto
termination
  by (relation "measure (\<lambda>(i, s). nat (len s - i))") (auto dest!: insertion_step_len)

declare insertion_outer.simps [simp del]

definition insertionSort :: "state \<Rightarrow> state result" where
  "insertionSort s = insertion_outer 1 s"

subsection \<open>Quick sort\<close>

definition partition_body :: "int \<Rightarrow> jsnum \<Rightarrow> int \<Rightarrow> int \<Rightarrow> state \<Rightarrow> (int \<times> state) result" where
  "partition_body high pivot i j s =
     bindR (bar s j) (\<lambda>_.
     bindR (hget s j) (\<lambda>a.
     let s0 = emit (Compare j high) s in
     if js_le a pivot then
       (if i + 1 \<noteq> j then bindR (swapBars (i + 1) j s0) (\<lambda>s1. Ok (i + 1, s1))
        else Ok (i + 1, s0))
     else Ok (i, s0)))"

function partition_loop :: "int \<Rightarrow> jsnum \<Rightarrow> int \<Rightarrow> int \<Rightarrow> state \<Rightarrow> (int \<times> state) result" where
  "partition_loop high pivot i j s =
     (if j < high
      then bindR (partition_body high pivot i j s) (\<lambda>(i1, s1).
             partition_loop high pivot i1 (j + 1) s1)
      else Ok (i, s))"
  by pat_completeness auto
termination
  by (relation "measure (\<lambda>(high, pivot, i, j, s). nat (high - j))") auto

declare partition_loop.simps [simp del]

definition partition :: "int \<Rightarrow> int \<Rightarrow> state \<Rightarrow> (int \<times> state) result" where
  "partition low high s =
     bindR (hget s high) (\<lambda>pivot.
     bindR (bar s high) (\<lambda>_.
     bindR (partition_loop high pivot (low - 1) low s) (\<lambda>(i, s1).
     bindR (swapBars (i + 1) high s1) (\<lambda>s2.
     bindR (markAsSorted (i + 1) s2) (\<lambda>s3.
     Ok (i + 1, s3))))))"

lemma partition_body_range:
  "partition_body high pivot i j s = Ok (i', s') \<Longrightarrow> i \<le> i' \<and> i' \<le> i + 1"
  by (auto simp: partition_body_def Let_def split: if_splits elim!: bindR_OkE)

lemma partition_loop_range:
  "partition_loop high pivot i j s = Ok (i', s') \<Longrightarrow> j \<le> high \<Longrightarrow>
   i \<le> i' \<and> i' \<le> i + (high - j)"
proof (induction high pivot i j s arbitrary: i' s' rule: partition_loop.induct)
  case (1 high pivot i j s)
  from "1.prems" [unfolded partition_loop.simps [of high pivot i j s]] "1.IH" show ?case
    by (fastforce split: if_splits elim!: bindR_OkE dest: partition_body_range)
qed

lemma partition_range:
  "partition low high s = Ok (p, s') \<Longrightarrow> low \<le> high \<Longrightarrow> low \<le> p \<and> p \<le> high"
  by (auto simp: partition_def elim!: bindR_OkE dest!: partition_loop_range)

function quickSortHelper :: "int \<Rightarrow> int \<Rightarrow> state \<Rightarrow> state result" where
  "quickSortHelper low high s =
     (if low < high then
        bindR (partition low high s) (\<lambda>(p, s1).
        bindR (quickSortHelper low (p - 1) s1) (\<lambda>s2.
        quickSortHelper (p + 1) high s2))
      else Ok s)"
  by pat_completeness auto
termination
proof (relation "measure (\<lambda>(low, high, s). nat (high - low))", goal_cases)
  case 1
  show ?case by simp
next
  case (2 low high s x p s1)
  then have "low \<le> p \<and> p \<le> high"
    using partition_range [of low high s p s1] by simp
  then show ?case using 2 by simp
next
  case (3 low high s x p s1 s2)
  then have "low \<le> p \<and> p \<le> high"
    using partition_range [of low high s p s1] by simp
  then show ?case using 3 by simp
qed

declare quickSortHelper.simps [simp del]

definition quickSort :: "state \<Rightarrow> state result" where
  "quickSort s = quickSortHelper 0 (len s - 1) s"

subsection \<open>Merge sort\<close>

text \<open>\<^verbatim>\<open>Array.prototype.slice(a, b)\<close> for integer arguments: a negative argument counts
  from the end, and both are clamped to \<open>[0, length]\<close>.\<close>

definition slice :: "'a list \<Rightarrow> int \<Rightarrow> int \<Rightarrow> 'a list" where
  "slice xs a b =
     (let n = int (length xs);
          a' = (if a < 0 then max (n + a) 0 else min a n);
          b' = (if b < 0 then max (n + b) 0 else min b n)
      in take (nat (b' - a')) (drop (nat a') xs))"

text \<open>A read of one of the two temporary arrays.\<close>

definition aget :: "state \<Rightarrow> jsnum list \<Rightarrow> int \<Rightarrow> jsnum result" where
  "aget s xs i = (if 0 \<le> i \<and> i < int (length xs) then Ok (xs ! nat i) else Threw s)"

text \<open>\<^verbatim>\<open>heights[k] = v; updateBarHeight(bars[k], heights[k]); markAsSorted(bars[k])\<close>\<close>

definition place :: "int \<Rightarrow> jsnum \<Rightarrow> state \<Rightarrow> state result" where
  "place k v s = bindR (overwrite k v s) (\<lambda>s1. markAsSorted k s1)"

definition merge_body ::
  "int \<Rightarrow> int \<Rightarrow> jsnum list \<Rightarrow> jsnum list \<Rightarrow> int \<Rightarrow> int \<Rightarrow> int \<Rightarrow> state
   \<Rightarrow> (int \<times> int \<times> state) result" where
  "merge_body left mid leftArray rightArray i j k s =
     bindR (bar s k) (\<lambda>_.
     bindR (hget s k) (\<lambda>_.
     bindR (aget s leftArray i) (\<lambda>a.
     bindR (aget s rightArray j) (\<lambda>b.
     let s0 = emit (Compare (left + i) (mid + 1 + j)) s in
     if js_le a b then bindR (place k a s0) (\<lambda>s1. Ok (i + 1, j, s1))
     else bindR (place k b s0) (\<lambda>s1. Ok (i, j + 1, s1))))))"

lemma merge_body_progress:
  "merge_body left mid la ra i j k s = Ok (i', j', s') \<Longrightarrow>
   (i' = i + 1 \<and> j' = j) \<or> (i' = i \<and> j' = j + 1)"
  by (auto simp: merge_body_def Let_def split: if_splits elim!: bindR_OkE)

function merge_both ::
  "int \<Rightarrow> int \<Rightarrow> jsnum list \<Rightarrow> jsnum list \<Rightarrow> int \<Rightarrow> int \<Rightarrow> int \<Rightarrow> state
   \<Rightarrow> (int \<times> int \<times> int \<times> state) result" where
  "merge_both left mid leftArray rightArray i j k s =
     (if i < int (length leftArray) \<and> j < int (length rightArray)
      then bindR (merge_body left mid leftArray rightArray i j k s) (\<lambda>(i1, j1, s1).
             merge_both left mid leftArray rightArray i1 j1 (k + 1) s1)
      else Ok (i, j, k, s))"
  by pat_completeness auto
termination
proof (relation "measure (\<lambda>(left, mid, la, ra, i, j, k, s).
          nat (int (length la) - i) + nat (int (length ra) - j))", goal_cases)
  case 1
  show ?case by simp
next
  case (2 left mid la ra i j k s x i1 y j1 s1)
  then show ?case
    using merge_body_progress [of left mid la ra i j k s i1 j1 s1] by auto
qed

declare merge_both.simps [simp del]

function merge_rest :: "jsnum list \<Rightarrow> int \<Rightarrow> int \<Rightarrow> state \<Rightarrow> (int \<times> state) result" where
  "merge_rest buf i k s =
     (if i < int (length buf)
      then bindR (aget s buf i) (\<lambda>a.
           bindR (place k a s) (\<lambda>s1.
           merge_rest buf (i + 1) (k + 1) s1))
      else Ok (k, s))"
  by pat_completeness auto
termination
  by (relation "measure (\<lambda>(buf, i, k, s). nat (int (length buf) - i))") auto

declare merge_rest.simps [simp del]

text \<open>The two copy loops after the main loop have the same shape and differ in the
  temporary array they drain; \<open>merge_rest\<close> is both.\<close>

definition merge :: "int \<Rightarrow> int \<Rightarrow> int \<Rightarrow> state \<Rightarrow> state result" where
  "merge left mid right s =
     (let leftArray = slice (heights s) left (mid + 1);
          rightArray = slice (heights s) (mid + 1) (right + 1)
      in bindR (merge_both left mid leftArray rightArray 0 0 left s) (\<lambda>(i, j, k, s1).
         bindR (merge_rest leftArray i k s1) (\<lambda>(k1, s2).
         bindR (merge_rest rightArray j k1 s2) (\<lambda>(k2, s3).
         Ok s3))))"

function mergeSortHelper :: "int \<Rightarrow> int \<Rightarrow> state \<Rightarrow> state result" where
  "mergeSortHelper left right s =
     (if left < right then
        (let mid = (left + right) div 2 in
         bindR (mergeSortHelper left mid s) (\<lambda>s1.
         bindR (mergeSortHelper (mid + 1) right s1) (\<lambda>s2.
         merge left mid right s2)))
      else Ok s)"
  by pat_completeness auto
termination
  by (relation "measure (\<lambda>(left, right, s). nat (right - left))") auto

declare mergeSortHelper.simps [simp del]

definition mergeSort :: "state \<Rightarrow> state result" where
  "mergeSort s = mergeSortHelper 0 (len s - 1) s"

subsection \<open>Heap sort\<close>

text \<open>\<^verbatim>\<open>if (c < n && heights[c] > heights[largest]) largest = c\<close>\<close>

definition pick_larger :: "int \<Rightarrow> int \<Rightarrow> int \<Rightarrow> state \<Rightarrow> (int \<times> state) result" where
  "pick_larger n c largest s =
     (if c < n then
        bindR (hget s c) (\<lambda>a.
        bindR (hget s largest) (\<lambda>b.
        Ok (if js_gt a b then c else largest, emit (Compare c largest) s)))
      else Ok (largest, s))"

definition heapify_swap :: "int \<Rightarrow> int \<Rightarrow> state \<Rightarrow> state result" where
  "heapify_swap i largest s =
     bindR (bar s i) (\<lambda>_.
     bindR (bar s largest) (\<lambda>_.
     bindR (hget s largest) (\<lambda>_.
     swapBars i largest s)))"

lemma pick_larger_cases:
  "pick_larger n c l s = Ok (l', s') \<Longrightarrow> l' = l \<or> (l' = c \<and> c < n \<and> 0 \<le> c)"
  by (auto simp: pick_larger_def hget_def inb_def split: if_splits elim!: bindR_OkE)

lemma heapify_swap_inb: "heapify_swap i l s = Ok s' \<Longrightarrow> 0 \<le> i"
  by (auto simp: heapify_swap_def bar_def inb_def split: if_splits elim!: bindR_OkE)

function heapify :: "int \<Rightarrow> int \<Rightarrow> state \<Rightarrow> state result" where
  "heapify n i s =
     bindR (pick_larger n (2 * i + 1) i s) (\<lambda>(l1, s1).
     bindR (pick_larger n (2 * i + 2) l1 s1) (\<lambda>(largest, s2).
     if largest \<noteq> i
     then bindR (heapify_swap i largest s2) (\<lambda>s3. heapify n largest s3)
     else Ok s2))"
  by pat_completeness auto
termination
proof (relation "measure (\<lambda>(n, i, s). nat (n - i))", goal_cases)
  case 1
  show ?case by simp
next
  case (2 n i s x l1 s1 xa largest s2 s3)
  from 2 have "0 \<le> i" by (auto dest: heapify_swap_inb)
  moreover from 2 have "l1 = i \<or> (l1 = 2 * i + 1 \<and> 2 * i + 1 < n)"
    using pick_larger_cases [of n "2 * i + 1" i s l1 s1] by auto
  moreover from 2 have "largest = l1 \<or> (largest = 2 * i + 2 \<and> 2 * i + 2 < n)"
    using pick_larger_cases [of n "2 * i + 2" l1 s1 largest s2] by auto
  ultimately show ?case using 2 by auto
qed

declare heapify.simps [simp del]

function heap_build :: "int \<Rightarrow> state \<Rightarrow> state result" where
  "heap_build i s =
     (if i \<ge> 0 then bindR (heapify (len s) i s) (\<lambda>s1. heap_build (i - 1) s1) else Ok s)"
  by pat_completeness auto
termination
  by (relation "measure (\<lambda>(i, s). nat (i + 1))") auto

declare heap_build.simps [simp del]

definition heap_pop :: "int \<Rightarrow> state \<Rightarrow> state result" where
  "heap_pop i s =
     bindR (swapBars 0 i s) (\<lambda>s1.
     bindR (markAsSorted i s1) (\<lambda>s2.
     heapify i 0 s2))"

function heap_extract :: "int \<Rightarrow> state \<Rightarrow> state result" where
  "heap_extract i s =
     (if i > 0 then bindR (heap_pop i s) (\<lambda>s1. heap_extract (i - 1) s1) else Ok s)"
  by pat_completeness auto
termination
  by (relation "measure (\<lambda>(i, s). nat i)") auto

declare heap_extract.simps [simp del]

definition heapSort :: "state \<Rightarrow> state result" where
  "heapSort s =
     bindR (heap_build (len s div 2 - 1) s) (\<lambda>s1.
     bindR (heap_extract (len s1 - 1) s1) (\<lambda>s2.
     markAsSorted 0 s2))"

subsection \<open>Shell sort\<close>

text \<open>
  The gapped insertion loop
  \<^verbatim>\<open>for (j = i; j >= gap && heights[j - gap] > temp; j -= gap)\<close> makes progress only
  because \<open>gap\<close> is positive, which the loop itself does not test. It is therefore a
  partial function: \<open>None\<close> means that the loop does not return. Everything built on
  it carries the same outer \<open>option\<close>.
\<close>

definition shell_shift :: "int \<Rightarrow> int \<Rightarrow> jsnum \<Rightarrow> state \<Rightarrow> state result" where
  "shell_shift gap j a s = bindR (bar s (j - gap)) (\<lambda>_. overwrite j a s)"

partial_function (option) shell_inner ::
  "int \<Rightarrow> int \<Rightarrow> jsnum \<Rightarrow> int \<Rightarrow> state \<Rightarrow> (int \<times> state) result option" where
  "shell_inner i gap temp j s =
     (if j \<ge> gap then
        (case hget s (j - gap) of
           Threw t \<Rightarrow> Some (Threw t)
         | Ok a \<Rightarrow>
             if js_gt a temp then
               (case shell_shift gap j a (emit (Compare (j - gap) i) s) of
                  Threw t \<Rightarrow> Some (Threw t)
                | Ok s1 \<Rightarrow> shell_inner i gap temp (j - gap) s1)
             else Some (Ok (j, emit (Compare (j - gap) i) s)))
      else Some (Ok (j, s)))"

declare shell_inner.simps [code]

definition bindO :: "'a result option \<Rightarrow> ('a \<Rightarrow> 'b result option) \<Rightarrow> 'b result option" where
  "bindO m f = (case m of None \<Rightarrow> None | Some (Threw s) \<Rightarrow> Some (Threw s) | Some (Ok x) \<Rightarrow> f x)"

lemma bindO_cong [fundef_cong]:
  "m = m' \<Longrightarrow> (\<And>x. m' = Some (Ok x) \<Longrightarrow> f x = f' x) \<Longrightarrow> bindO m f = bindO m' f'"
  by (simp add: bindO_def split: option.splits result.splits)

lemma bindO_simps [simp]:
  "bindO None f = None"
  "bindO (Some (Threw s)) f = Some (Threw s)"
  "bindO (Some (Ok x)) f = f x"
  by (simp_all add: bindO_def)

lemma bindO_OkE:
  assumes "bindO m f = Some (Ok y)"
  obtains x where "m = Some (Ok x)" and "f x = Some (Ok y)"
  using assms by (auto simp: bindO_def split: option.splits result.splits)

definition shell_step :: "int \<Rightarrow> int \<Rightarrow> state \<Rightarrow> state result option" where
  "shell_step gap i s =
     bindO (Some (hget s i)) (\<lambda>temp.
     bindO (Some (bar s i)) (\<lambda>_.
     bindO (shell_inner i gap temp i s) (\<lambda>(j, s1).
     Some (overwrite j temp s1))))"

function shell_pass :: "int \<Rightarrow> int \<Rightarrow> int \<Rightarrow> state \<Rightarrow> state result option" where
  "shell_pass n gap i s =
     (if i < n then bindO (shell_step gap i s) (\<lambda>s1. shell_pass n gap (i + 1) s1)
      else Some (Ok s))"
  by pat_completeness auto
termination
  by (relation "measure (\<lambda>(n, gap, i, s). nat (n - i))") auto

declare shell_pass.simps [simp del]

function shell_gaps :: "int \<Rightarrow> int \<Rightarrow> state \<Rightarrow> state result option" where
  "shell_gaps n gap s =
     (if gap > 0 then bindO (shell_pass n gap gap s) (\<lambda>s1. shell_gaps n (gap div 2) s1)
      else Some (Ok s))"
  by pat_completeness auto
termination
  by (relation "measure (\<lambda>(n, gap, s). nat gap)") auto

declare shell_gaps.simps [simp del]

definition shellSort :: "state \<Rightarrow> state result option" where
  "shellSort s =
     (let n = len s in
      bindO (shell_gaps n (n div 2) s) (\<lambda>s1. Some (mark_all n 0 s1)))"

subsection \<open>The controller\<close>

text \<open>
  \<^verbatim>\<open>startSort\<close> switches on the name of the algorithm; the \<^verbatim>\<open>switch\<close> has no
  \<^verbatim>\<open>default\<close> branch. Its \<^verbatim>\<open>try\<close> block receives a thrown exception (\<open>Threw\<close>) and
  logs it. \<open>init xs\<close> is the state in which an algorithm starts on a page whose bars
  display \<open>xs\<close>: \<^verbatim>\<open>getBarHeights\<close> returns the displayed values, and nothing is logged
  yet.
\<close>

definition init :: "jsnum list \<Rightarrow> state" where
  "init xs = \<lparr>heights = xs, bars = xs, trace = [], shots = []\<rparr>"

definition startSort :: "string \<Rightarrow> state \<Rightarrow> state result option" where
  "startSort algorithm s =
     (if algorithm = ''bubble'' then Some (bubbleSort s)
      else if algorithm = ''selection'' then Some (selectionSort s)
      else if algorithm = ''insertion'' then Some (insertionSort s)
      else if algorithm = ''quick'' then Some (quickSort s)
      else if algorithm = ''merge'' then Some (mergeSort s)
      else if algorithm = ''heap'' then Some (heapSort s)
      else if algorithm = ''shell'' then shellSort s
      else Some (Ok s))"

definition algorithms :: "string list" where
  "algorithms = [''bubble'', ''selection'', ''insertion'', ''quick'', ''merge'', ''heap'', ''shell'']"

section \<open>Replaying a trace\<close>

text \<open>
  Modelled from the spec: the source has no playback driver; \<open>apply_step\<close> is the
  meaning section 3 of the specification gives to a step applied to a presentation
  copy, and \<open>replay\<close> applies a step sequence in order. A step whose index is not
  a position of the copy changes nothing.
\<close>

definition valid_index :: "jsnum list \<Rightarrow> int \<Rightarrow> bool" where
  "valid_index xs i = (0 \<le> i \<and> i < int (length xs))"

fun apply_step :: "step \<Rightarrow> jsnum list \<Rightarrow> jsnum list" where
  "apply_step (Compare i j) xs = xs"
| "apply_step (Swap i j) xs =
     (if valid_index xs i \<and> valid_index xs j then xs[nat i := xs ! nat j, nat j := xs ! nat i]
      else xs)"
| "apply_step (Overwrite i v) xs = (if valid_index xs i then xs[nat i := v] else xs)"
| "apply_step (MarkFinal i) xs = xs"

definition replay :: "step list \<Rightarrow> jsnum list \<Rightarrow> jsnum list" where
  "replay t xs = foldl (\<lambda>a st. apply_step st a) xs t"

text \<open>\<open>replays t xs\<close> lists the presentation copy after each step of \<open>t\<close> in turn.\<close>

fun replays :: "step list \<Rightarrow> jsnum list \<Rightarrow> jsnum list list" where
  "replays [] xs = []"
| "replays (st # t) xs = apply_step st xs # replays t (apply_step st xs)"

section \<open>Observations on a trace\<close>

fun is_compare :: "step \<Rightarrow> bool" where
  "is_compare (Compare i j) = True"
| "is_compare _ = False"

definition count_compares :: "step list \<Rightarrow> nat" where
  "count_compares t = length (filter is_compare t)"

text \<open>The index a step marks final, and the indices a step writes.\<close>

fun marked :: "step \<Rightarrow> int list" where
  "marked (MarkFinal i) = [i]"
| "marked _ = []"

definition marks :: "step list \<Rightarrow> int list" where
  "marks t = concat (map marked t)"

fun writes :: "step \<Rightarrow> int list" where
  "writes (Swap i j) = [i, j]"
| "writes (Overwrite i v) = [i]"
| "writes _ = []"

text \<open>\<open>settled t\<close>: no step after a \<open>MarkFinal i\<close> writes index \<open>i\<close>.\<close>

fun settled :: "step list \<Rightarrow> bool" where
  "settled [] = True"
| "settled (st # t) =
     (list_all (\<lambda>i. list_all (\<lambda>u. i \<notin> set (writes u)) t) (marked st) \<and> settled t)"

text \<open>\<open>quiet t xs\<close>: replayed from \<open>xs\<close>, no step of \<open>t\<close> changes the value of a slot.\<close>

fun quiet :: "step list \<Rightarrow> jsnum list \<Rightarrow> bool" where
  "quiet [] xs = True"
| "quiet (st # t) xs = (apply_step st xs = xs \<and> quiet t xs)"

text \<open>
  Shapes of a step: \<open>no_write\<close> is neither a swap nor an overwrite; \<open>self_swap\<close> is no
  overwrite, and if a swap, then of a slot with itself; \<open>self_overwrite xs\<close> is no swap,
  and if an overwrite, then of a slot of \<open>xs\<close> with the value it holds in \<open>xs\<close>.
\<close>

fun no_write :: "step \<Rightarrow> bool" where
  "no_write (Swap i j) = False"
| "no_write (Overwrite k v) = False"
| "no_write _ = True"

fun self_swap :: "step \<Rightarrow> bool" where
  "self_swap (Swap i j) = (i = j)"
| "self_swap (Overwrite k v) = False"
| "self_swap _ = True"

fun self_overwrite :: "jsnum list \<Rightarrow> step \<Rightarrow> bool" where
  "self_overwrite xs (Swap i j) = False"
| "self_overwrite xs (Overwrite k v) = (valid_index xs k \<and> xs ! nat k = v)"
| "self_overwrite xs _ = True"

section \<open>Basic facts\<close>

subsection \<open>The primitives\<close>

lemma bar_Ok [simp]: "inb s k \<Longrightarrow> bar s k = Ok ()"
  by (simp add: bar_def)

lemma hget_Ok [simp]: "inb s k \<Longrightarrow> hget s k = Ok (heights s ! nat k)"
  by (simp add: hget_def)

lemma aget_Ok [simp]: "0 \<le> i \<Longrightarrow> i < int (length xs) \<Longrightarrow> aget s xs i = Ok (xs ! nat i)"
  by (simp add: aget_def)

lemma bar_OkE:
  assumes "bar s k = Ok u"
  obtains "inb s k"
  using assms by (auto simp: bar_def split: if_splits)

lemma hget_OkE:
  assumes "hget s k = Ok a"
  obtains "inb s k" and "a = heights s ! nat k"
  using assms by (auto simp: hget_def split: if_splits)

lemma aget_OkE:
  assumes "aget s xs i = Ok a"
  obtains "0 \<le> i" and "i < int (length xs)" and "a = xs ! nat i"
  using assms by (auto simp: aget_def split: if_splits)

lemmas prim_OkE = bindR_OkE bar_OkE hget_OkE aget_OkE

subsection \<open>Replay\<close>

lemma length_apply_step [simp]: "length (apply_step st xs) = length xs"
  by (cases st) auto

lemma replay_Nil [simp]: "replay [] xs = xs"
  by (simp add: replay_def)

lemma replay_Cons [simp]: "replay (st # t) xs = replay t (apply_step st xs)"
  by (simp add: replay_def)

lemma replay_append [simp]: "replay (t @ u) xs = replay u (replay t xs)"
  by (simp add: replay_def)

lemma length_replay [simp]: "length (replay t xs) = length xs"
  by (induction t arbitrary: xs) auto

text \<open>
  What a logged action does to the bars of the page, given the array as the action
  leaves it: a swap and an overwrite give each bar they name the value of its slot.
\<close>

fun show_step :: "step \<Rightarrow> jsnum list \<Rightarrow> jsnum list \<Rightarrow> jsnum list" where
  "show_step (Swap i j) hs bs =
     (if valid_index hs i \<and> valid_index hs j then bs[nat i := hs ! nat i, nat j := hs ! nat j]
      else bs)"
| "show_step (Overwrite k v) hs bs = (if valid_index hs k then bs[nat k := hs ! nat k] else bs)"
| "show_step _ hs bs = bs"

definition shown :: "step \<Rightarrow> jsnum list \<times> jsnum list \<Rightarrow> jsnum list" where
  "shown st p = show_step st (apply_step st (fst p)) (snd p)"

fun play :: "step list \<Rightarrow> jsnum list \<times> jsnum list \<Rightarrow> jsnum list \<times> jsnum list" where
  "play [] p = p"
| "play (st # t) p = play t (apply_step st (fst p), shown st p)"

fun frames :: "step list \<Rightarrow> jsnum list \<times> jsnum list \<Rightarrow> (jsnum list \<times> jsnum list) list" where
  "frames [] p = []"
| "frames (st # t) p =
     (apply_step st (fst p), shown st p) # frames t (apply_step st (fst p), shown st p)"

lemma fst_play [simp]: "fst (play t p) = replay t (fst p)"
  by (induction t arbitrary: p) auto

lemma play_append [simp]: "play (t @ u) p = play u (play t p)"
  by (induction t arbitrary: p) auto

lemma frames_append [simp]: "frames (t @ u) p = frames t p @ frames u (play t p)"
  by (induction t arbitrary: p) auto

text \<open>\<open>after s t\<close> is the state that the steps \<open>t\<close>, taken from the state \<open>s\<close>, lead to.\<close>

definition after :: "state \<Rightarrow> step list \<Rightarrow> state" where
  "after s t =
     \<lparr>heights = replay t (heights s), bars = snd (play t (heights s, bars s)),
      trace = trace s @ t, shots = shots s @ frames t (heights s, bars s)\<rparr>"

lemma after_Nil [simp]: "after s [] = s"
  by (simp add: after_def)

lemma heights_after [simp]: "heights (after s t) = replay t (heights s)"
  by (simp add: after_def)

lemma bars_after: "bars (after s t) = snd (play t (heights s, bars s))"
  by (simp add: after_def)

lemma trace_after [simp]: "trace (after s t) = trace s @ t"
  by (simp add: after_def)

lemma shots_after: "shots (after s t) = shots s @ frames t (heights s, bars s)"
  by (simp add: after_def)

lemma after_after [simp]: "after (after s t) u = after s (t @ u)"
proof -
  have "(replay t (heights s), snd (play t (heights s, bars s))) = play t (heights s, bars s)"
    by (simp add: prod_eq_iff)
  then show ?thesis by (simp add: after_def)
qed

lemma after_inj: "after s t = after s u \<Longrightarrow> t = u"
proof -
  assume "after s t = after s u"
  then have "trace (after s t) = trace (after s u)" by simp
  then show "t = u" by simp
qed

lemma len_after [simp]: "len (after s t) = len s"
  by (simp add: len_def)

lemma inb_after [simp]: "inb (after s t) k = inb s k"
  by (simp add: inb_def)

lemma emit_Compare: "emit (Compare i j) s = after s [Compare i j]"
  by (simp add: emit_def after_def shown_def)

lemma swapBars_Ok:
  "inb s i \<Longrightarrow> inb s j \<Longrightarrow> swapBars i j s = Ok (after s [Swap i j])"
  by (simp add: swapBars_def updateBarHeight_def after_def emit_def shown_def valid_index_def
      inb_def len_def Let_def)

lemma overwrite_Ok: "inb s k \<Longrightarrow> overwrite k v s = Ok (after s [Overwrite k v])"
  by (simp add: overwrite_def updateBarHeight_def after_def emit_def shown_def valid_index_def
      inb_def len_def Let_def)

lemma markAsSorted_Ok: "inb s k \<Longrightarrow> markAsSorted k s = Ok (after s [MarkFinal k])"
  by (simp add: markAsSorted_def after_def emit_def shown_def)

lemma swapBars_OkE:
  assumes "swapBars i j s = Ok s'"
  obtains "inb s i" and "inb s j" and "s' = after s [Swap i j]"
  using assms swapBars_Ok [of s i j] by (auto simp: swapBars_def split: if_splits)

lemma overwrite_OkE:
  assumes "overwrite k v s = Ok s'"
  obtains "inb s k" and "s' = after s [Overwrite k v]"
  using assms overwrite_Ok [of s k v] by (auto simp: overwrite_def split: if_splits)

lemma markAsSorted_OkE:
  assumes "markAsSorted k s = Ok s'"
  obtains "inb s k" and "s' = after s [MarkFinal k]"
  using assms markAsSorted_Ok [of s k] by (auto simp: markAsSorted_def split: if_splits)

lemmas step_OkE = prim_OkE swapBars_OkE overwrite_OkE markAsSorted_OkE

lemma place_Ok: "inb s k \<Longrightarrow> place k v s = Ok (after s [Overwrite k v, MarkFinal k])"
  by (simp add: place_def overwrite_Ok markAsSorted_Ok)

lemma place_OkE:
  assumes "place k v s = Ok s'"
  obtains "inb s k" and "s' = after s [Overwrite k v, MarkFinal k]"
  using assms by (auto simp: place_def elim!: step_OkE)

subsection \<open>Marks and writes of a trace\<close>

definition confined :: "int set \<Rightarrow> step list \<Rightarrow> bool" where
  "confined A t = (\<forall>st \<in> set t. set (writes st) \<subseteq> A)"

lemma marks_simps [simp]:
  "marks [] = []"
  "marks (st # t) = marked st @ marks t"
  "marks (t @ u) = marks t @ marks u"
  by (simp_all add: marks_def)

lemma confined_simps [simp]:
  "confined A []"
  "confined A (st # t) = (set (writes st) \<subseteq> A \<and> confined A t)"
  "confined A (t @ u) = (confined A t \<and> confined A u)"
  by (auto simp: confined_def)

lemma confined_mono: "confined A t \<Longrightarrow> A \<subseteq> B \<Longrightarrow> confined B t"
  by (auto simp: confined_def)

lemma settled_append:
  "settled (t @ u) \<longleftrightarrow>
   settled t \<and> settled u \<and> (\<forall>m \<in> set (marks t). \<forall>st \<in> set u. m \<notin> set (writes st))"
  by (induction t) (auto simp: list_all_iff)

lemma settled_confined:
  "settled t \<Longrightarrow> settled u \<Longrightarrow> confined A u \<Longrightarrow> set (marks t) \<inter> A = {} \<Longrightarrow> settled (t @ u)"
  by (auto simp: settled_append confined_def)

lemma settled_no_marks: "marks t = [] \<Longrightarrow> settled t"
  by (induction t) (auto simp: list_all_iff)

lemma apply_step_frame:
  "set (writes st) \<subseteq> A \<Longrightarrow> k \<notin> A \<Longrightarrow> 0 \<le> k \<Longrightarrow> apply_step st xs ! nat k = xs ! nat k"
  by (cases st) (auto simp: valid_index_def nth_list_update eq_nat_nat_iff)

lemma replay_frame:
  "confined A t \<Longrightarrow> k \<notin> A \<Longrightarrow> 0 \<le> k \<Longrightarrow> replay t xs ! nat k = xs ! nat k"
  by (induction t arbitrary: xs) (auto simp: apply_step_frame)

text \<open>A trace without \<open>Overwrite\<close> steps permutes the array.\<close>

fun is_overwrite :: "step \<Rightarrow> bool" where
  "is_overwrite (Overwrite i v) = True"
| "is_overwrite _ = False"

definition permuting :: "step list \<Rightarrow> bool" where
  "permuting t = (\<forall>st \<in> set t. \<not> is_overwrite st)"

lemma permuting_simps [simp]:
  "permuting []"
  "permuting (st # t) = (\<not> is_overwrite st \<and> permuting t)"
  "permuting (t @ u) = (permuting t \<and> permuting u)"
  by (auto simp: permuting_def)

lemma mset_apply_step: "\<not> is_overwrite st \<Longrightarrow> mset (apply_step st xs) = mset xs"
  by (cases st) (auto simp: valid_index_def mset_swap)

lemma mset_replay: "permuting t \<Longrightarrow> mset (replay t xs) = mset xs"
  by (induction t arbitrary: xs) (auto simp: mset_apply_step)

lemma apply_step_pred:
  assumes "\<not> is_overwrite st" "set (writes st) \<subseteq> A"
    and "\<forall>k \<in> A. 0 \<le> k \<and> k < int (length xs) \<longrightarrow> P (xs ! nat k)"
  shows "\<forall>k \<in> A. 0 \<le> k \<and> k < int (length xs) \<longrightarrow> P (apply_step st xs ! nat k)"
proof (cases st)
  case (Swap i j)
  show ?thesis
  proof (cases "valid_index xs i \<and> valid_index xs j")
    case True
    then have "apply_step st xs ! nat k =
        (if k = j then xs ! nat i else if k = i then xs ! nat j else xs ! nat k)"
      if "0 \<le> k" "k < int (length xs)" for k
      using that Swap by (auto simp: valid_index_def nth_list_update eq_nat_nat_iff)
    moreover have "i \<in> A" "j \<in> A" using assms(2) Swap by auto
    ultimately show ?thesis using assms(3) True by (auto simp: valid_index_def)
  next
    case False
    with Swap assms(3) show ?thesis by auto
  qed
qed (use assms in auto)

lemma replay_pred:
  "permuting t \<Longrightarrow> confined A t \<Longrightarrow>
   \<forall>k \<in> A. 0 \<le> k \<and> k < int (length xs) \<longrightarrow> P (xs ! nat k) \<Longrightarrow>
   \<forall>k \<in> A. 0 \<le> k \<and> k < int (length xs) \<longrightarrow> P (replay t xs ! nat k)"
proof (induction t arbitrary: xs)
  case Nil
  then show ?case by simp
next
  case (Cons st t)
  from Cons.prems have "\<forall>k \<in> A. 0 \<le> k \<and> k < int (length xs) \<longrightarrow> P (apply_step st xs ! nat k)"
    by (intro apply_step_pred) auto
  with Cons.IH [of "apply_step st xs"] Cons.prems show ?case by simp
qed
section \<open>Every run stays in range, and its trace replays to its array\<close>

text \<open>
  For each loop and helper: under the bounds its call site guarantees, the call ends
  in \<open>Ok\<close>, and the state it returns is the state it started from followed by the
  steps it emitted. The lemmas also record what these steps mark and where they write.
  They do not depend on the values of the array.
\<close>

subsection \<open>Bubble sort\<close>

lemma mark_all_unfold:
  "i < n \<Longrightarrow> mark_all n i s = bindR (markAsSorted i s) (mark_all n (i + 1))"
  "\<not> i < n \<Longrightarrow> mark_all n i s = Ok s"
  by (subst mark_all.simps, simp)+

lemma mark_all_eq:
  "0 \<le> i \<Longrightarrow> n \<le> len s \<Longrightarrow> mark_all n i s = Ok (after s (map MarkFinal [i..n - 1]))"
proof (induction n i s rule: mark_all.induct)
  case (1 n i s)
  show ?case
  proof (cases "i < n")
    case True
    then have "inb s i" using 1 by (simp add: inb_def)
    then have m: "markAsSorted i s = Ok (after s [MarkFinal i])"
      by (rule markAsSorted_Ok)
    have "[i..n - 1] = i # [i + 1..n - 1]"
      using True by (simp add: upto_rec1)
    with "1.IH" [OF True m] "1.prems" True m show ?thesis
      by (simp add: mark_all_unfold)
  next
    case False
    then show ?thesis by (simp add: mark_all_unfold)
  qed
qed

lemma marks_map_MarkFinal [simp]: "marks (map MarkFinal ks) = ks"
  by (induction ks) auto

lemma confined_map_MarkFinal [simp]: "confined A (map MarkFinal ks)"
  by (induction ks) auto

lemma settled_map_MarkFinal [simp]: "settled (map MarkFinal ks)"
  by (induction ks) (auto simp: list_all_iff)

lemma bubble_body_eq:
  "inb s j \<Longrightarrow> inb s (j + 1) \<Longrightarrow>
   bubble_body j s = Ok (after s (Compare j (j + 1) #
     (if js_gt (heights s ! nat j) (heights s ! nat (j + 1)) then [Swap j (j + 1)] else [])))"
  by (simp add: bubble_body_def emit_Compare swapBars_Ok)

lemma bubble_inner_unfold:
  "j < len s - i - 1 \<Longrightarrow> bubble_inner i j s = bindR (bubble_body j s) (bubble_inner i (j + 1))"
  "\<not> j < len s - i - 1 \<Longrightarrow> bubble_inner i j s = Ok s"
  by (subst bubble_inner.simps, simp)+

lemma bubble_inner_run:
  "0 \<le> i \<Longrightarrow> 0 \<le> j \<Longrightarrow> \<exists>t. bubble_inner i j s = Ok (after s t) \<and> marks t = []"
proof (induction i j s rule: bubble_inner.induct)
  case (1 i j s)
  show ?case
  proof (cases "j < len s - i - 1")
    case True
    then have "inb s j" "inb s (j + 1)" using 1 by (auto simp: inb_def)
    note body = bubble_body_eq [OF this]
    from "1.IH" [OF True body] "1.prems" obtain t where
      "bubble_inner i (j + 1) (after s (Compare j (j + 1) #
         (if js_gt (heights s ! nat j) (heights s ! nat (j + 1)) then [Swap j (j + 1)] else [])))
       = Ok (after s ((Compare j (j + 1) #
         (if js_gt (heights s ! nat j) (heights s ! nat (j + 1)) then [Swap j (j + 1)] else [])) @ t))"
      "marks t = []"
      by auto
    then show ?thesis
      by (intro exI [of _ "(Compare j (j + 1) #
         (if js_gt (heights s ! nat j) (heights s ! nat (j + 1)) then [Swap j (j + 1)] else [])) @ t"])
         (simp add: bubble_inner_unfold True body)
  next
    case False
    then show ?thesis by (intro exI [of _ "[]"]) (simp add: bubble_inner_unfold)
  qed
qed

lemma bubble_outer_unfold:
  "i < len s \<Longrightarrow> bubble_outer i s = bindR (bubble_inner i 0 s) (bubble_outer (i + 1))"
  "\<not> i < len s \<Longrightarrow> bubble_outer i s = Ok s"
  by (subst bubble_outer.simps, simp)+

lemma bubble_outer_run:
  "0 \<le> i \<Longrightarrow> \<exists>t. bubble_outer i s = Ok (after s t) \<and> marks t = []"
proof (induction i s rule: bubble_outer.induct)
  case (1 i s)
  show ?case
  proof (cases "i < len s")
    case True
    from bubble_inner_run [of i 0 s] "1.prems" obtain t1 where
      b: "bubble_inner i 0 s = Ok (after s t1)" and t1: "marks t1 = []"
      by auto
    from "1.IH" [OF True b] "1.prems" obtain t2 where
      "bubble_outer (i + 1) (after s t1) = Ok (after s (t1 @ t2))" "marks t2 = []"
      by auto
    with t1 show ?thesis
      by (intro exI [of _ "t1 @ t2"]) (simp add: bubble_outer_unfold True b)
  next
    case False
    then show ?thesis by (intro exI [of _ "[]"]) (simp add: bubble_outer_unfold)
  qed
qed

lemma bubbleSort_run:
  "\<exists>t. bubbleSort s = Ok (after s (t @ map MarkFinal [0..len s - 1])) \<and> marks t = []"
proof -
  from bubble_outer_run [of 0 s] obtain t where
    b: "bubble_outer 0 s = Ok (after s t)" and t: "marks t = []" by auto
  have "mark_all (len (after s t)) 0 (after s t)
        = Ok (after (after s t) (map MarkFinal [0..len (after s t) - 1]))"
    by (rule mark_all_eq) simp_all
  with b t show ?thesis by (auto simp: bubbleSort_def)
qed

subsection \<open>Selection sort\<close>

lemma selection_body_eq:
  "inb s j \<Longrightarrow> inb s m \<Longrightarrow>
   selection_body j m s =
     Ok (if js_lt (heights s ! nat j) (heights s ! nat m) then j else m, after s [Compare j m])"
  by (simp add: selection_body_def emit_Compare)

lemma selection_inner_unfold:
  "j < len s \<Longrightarrow>
   selection_inner j m s = bindR (selection_body j m s) (\<lambda>(m1, s1). selection_inner (j + 1) m1 s1)"
  "\<not> j < len s \<Longrightarrow> selection_inner j m s = Ok (m, s)"
  by (subst selection_inner.simps, simp)+

lemma selection_inner_run:
  "0 \<le> j \<Longrightarrow> inb s m \<Longrightarrow>
   \<exists>m' t. selection_inner j m s = Ok (m', after s t) \<and> marks t = [] \<and> confined {} t \<and>
          inb s m' \<and> (m' = m \<or> j \<le> m')"
proof (induction j m s rule: selection_inner.induct)
  case (1 j m s)
  show ?case
  proof (cases "j < len s")
    case True
    then have j: "inb s j" using 1 by (simp add: inb_def)
    define m1 where "m1 = (if js_lt (heights s ! nat j) (heights s ! nat m) then j else m)"
    have body: "selection_body j m s = Ok (m1, after s [Compare j m])"
      using j "1.prems" by (simp add: selection_body_eq m1_def)
    have m1: "inb s m1" "m1 = m \<or> m1 = j"
      using j "1.prems" by (auto simp: m1_def)
    from "1.IH" [OF True body refl] "1.prems" m1 obtain m' t where
      r: "selection_inner (j + 1) m1 (after s [Compare j m]) = Ok (m', after s ([Compare j m] @ t))"
      and t: "marks t = []" "confined {} t" "inb s m'" "m' = m1 \<or> j + 1 \<le> m'"
      by auto
    from t m1 have "m' = m \<or> j \<le> m'" by auto
    with r t show ?thesis
      by (intro exI [of _ m'] exI [of _ "[Compare j m] @ t"])
         (simp add: selection_inner_unfold True body)
  next
    case False
    with "1.prems" show ?thesis
      by (intro exI [of _ m] exI [of _ "[]"]) (simp add: selection_inner_unfold)
  qed
qed

lemma selection_step_run:
  assumes "inb s i"
  shows "\<exists>t. selection_step i s = Ok (after s t) \<and> marks t = [i] \<and>
             confined {i..} t \<and> settled t"
proof -
  from assms have "0 \<le> i + 1" by (simp add: inb_def)
  from selection_inner_run [OF this assms] obtain m t where
    r: "selection_inner (i + 1) i s = Ok (m, after s t)"
    and t: "marks t = []" "confined {} t" "inb s m" "m = i \<or> i + 1 \<le> m"
    by auto
  define u where "u = (if m \<noteq> i then [Swap i m] else [])"
  have sw: "(if m \<noteq> i then swapBars i m (after s t) else Ok (after s t)) = Ok (after s (t @ u))"
    using assms t by (simp add: u_def swapBars_Ok)
  have mk: "markAsSorted i (after s (t @ u)) = Ok (after s (t @ u @ [MarkFinal i]))"
    using assms by (simp add: markAsSorted_Ok)
  have "selection_step i s = Ok (after s (t @ u @ [MarkFinal i]))"
    by (simp add: selection_step_def r sw mk)
  moreover have "marks (t @ u @ [MarkFinal i]) = [i]"
    using t by (simp add: u_def)
  moreover have "confined {i..} (t @ u @ [MarkFinal i])"
    using t confined_mono [of "{}" t "{i..}"] by (auto simp: u_def)
  moreover have "settled (t @ u @ [MarkFinal i])"
    using t by (auto simp: settled_append settled_no_marks u_def)
  ultimately show ?thesis by blast
qed

lemma selection_outer_unfold:
  "i < len s \<Longrightarrow> selection_outer i s = bindR (selection_step i s) (selection_outer (i + 1))"
  "\<not> i < len s \<Longrightarrow> selection_outer i s = Ok s"
  by (subst selection_outer.simps, simp)+

lemma selection_outer_run:
  "0 \<le> i \<Longrightarrow>
   \<exists>t. selection_outer i s = Ok (after s t) \<and> marks t = [i..len s - 1] \<and>
       confined {i..} t \<and> settled t"
proof (induction i s rule: selection_outer.induct)
  case (1 i s)
  show ?case
  proof (cases "i < len s")
    case True
    then have "inb s i" using 1 by (simp add: inb_def)
    from selection_step_run [OF this] obtain t1 where
      b: "selection_step i s = Ok (after s t1)"
      and t1: "marks t1 = [i]" "confined {i..} t1" "settled t1"
      by auto
    from "1.IH" [OF True b] "1.prems" obtain t2 where
      r: "selection_outer (i + 1) (after s t1) = Ok (after s (t1 @ t2))"
      and t2: "marks t2 = [i + 1..len s - 1]" "confined {i + 1..} t2" "settled t2"
      by auto
    have "[i..len s - 1] = i # [i + 1..len s - 1]"
      using True by (simp add: upto_rec1)
    moreover have "settled (t1 @ t2)"
      using t1 t2 by (intro settled_confined [of t1 t2 "{i + 1..}"]) auto
    moreover have "confined {i..} t2"
      using t2 by (auto intro: confined_mono)
    ultimately show ?thesis using r t1 t2
      by (intro exI [of _ "t1 @ t2"]) (simp add: selection_outer_unfold True b)
  next
    case False
    then show ?thesis
      by (intro exI [of _ "[]"]) (simp add: selection_outer_unfold)
  qed
qed

subsection \<open>Insertion sort\<close>

lemma insertion_shift_eq:
  "inb s j \<Longrightarrow> inb s (j + 1) \<Longrightarrow> insertion_shift j a s = Ok (after s [Overwrite (j + 1) a])"
  by (simp add: insertion_shift_def overwrite_Ok)

lemma insertion_while_unfold:
  "0 \<le> j \<Longrightarrow> inb s j \<Longrightarrow> inb s (j + 1) \<Longrightarrow> js_gt (heights s ! nat j) c \<Longrightarrow>
   insertion_while i c j s =
     insertion_while i c (j - 1) (after s [Compare j i, Overwrite (j + 1) (heights s ! nat j)])"
  "0 \<le> j \<Longrightarrow> inb s j \<Longrightarrow> \<not> js_gt (heights s ! nat j) c \<Longrightarrow>
   insertion_while i c j s = Ok (j, after s [Compare j i])"
  "\<not> 0 \<le> j \<Longrightarrow> insertion_while i c j s = Ok (j, s)"
  by (subst insertion_while.simps, simp add: emit_Compare insertion_shift_eq)+

lemma insertion_while_run:
  "- 1 \<le> j \<Longrightarrow> j + 1 < len s \<Longrightarrow>
   \<exists>j' t. insertion_while i c j s = Ok (j', after s t) \<and> - 1 \<le> j' \<and> j' \<le> j \<and>
          marks t = []"
proof (induction i c j s rule: insertion_while.induct)
  case (1 i c j s)
  show ?case
  proof (cases "0 \<le> j")
    case True
    then have b: "inb s j" "inb s (j + 1)" using 1 by (auto simp: inb_def)
    show ?thesis
    proof (cases "js_gt (heights s ! nat j) c")
      case gt: True
      have "hget s j = Ok (heights s ! nat j)" using b by simp
      moreover have "insertion_shift j (heights s ! nat j) (emit (Compare j i) s)
            = Ok (after s [Compare j i, Overwrite (j + 1) (heights s ! nat j)])"
        using b by (simp add: emit_Compare insertion_shift_eq)
      ultimately obtain j' t where
        "insertion_while i c (j - 1) (after s [Compare j i, Overwrite (j + 1) (heights s ! nat j)])
         = Ok (j', after s ([Compare j i, Overwrite (j + 1) (heights s ! nat j)] @ t))"
        "- 1 \<le> j'" "j' \<le> j - 1" "marks t = []"
        using "1.IH" [of "heights s ! nat j"] True gt "1.prems" by fastforce
      then show ?thesis
        using insertion_while_unfold(1) [OF True b gt, of i]
        by (intro exI [of _ j'] exI [of _ "[Compare j i, Overwrite (j + 1) (heights s ! nat j)] @ t"])
           simp
    next
      case False
      then show ?thesis
        using insertion_while_unfold(2) [OF True b(1) False, of i] True
        by (intro exI [of _ j] exI [of _ "[Compare j i]"]) simp
    qed
  next
    case False
    then show ?thesis using "1.prems"
      by (intro exI [of _ j] exI [of _ "[]"]) (simp add: insertion_while_unfold)
  qed
qed

lemma insertion_step_run:
  assumes "inb s i"
  shows "\<exists>t m. insertion_step i s = Ok (after s t) \<and> marks t = [m] \<and> 0 \<le> m \<and> m \<le> i"
proof -
  from assms have "- 1 \<le> i - 1" "i - 1 + 1 < len s" by (auto simp: inb_def)
  from insertion_while_run [OF this, of i "heights s ! nat i"] obtain j t where
    r: "insertion_while i (heights s ! nat i) (i - 1) s = Ok (j, after s t)"
    and j: "- 1 \<le> j" "j \<le> i - 1" and t: "marks t = []"
    by auto
  from j assms have "inb s (j + 1)" by (auto simp: inb_def)
  then show ?thesis using assms r j t
    by (intro exI [of _ "t @ [Overwrite (j + 1) (heights s ! nat i), MarkFinal (j + 1)]"]
          exI [of _ "j + 1"])
       (simp add: insertion_step_def overwrite_Ok markAsSorted_Ok)
qed

lemma insertion_outer_unfold:
  "i < len s \<Longrightarrow> insertion_outer i s = bindR (insertion_step i s) (insertion_outer (i + 1))"
  "\<not> i < len s \<Longrightarrow> insertion_outer i s = Ok s"
  by (subst insertion_outer.simps, simp)+

lemma insertion_outer_run:
  "0 \<le> i \<Longrightarrow>
   \<exists>t. insertion_outer i s = Ok (after s t) \<and> length (marks t) = nat (len s - i) \<and>
       set (marks t) \<subseteq> {0..<len s}"
proof (induction i s rule: insertion_outer.induct)
  case (1 i s)
  show ?case
  proof (cases "i < len s")
    case True
    then have "inb s i" using 1 by (simp add: inb_def)
    from insertion_step_run [OF this] obtain t1 m where
      b: "insertion_step i s = Ok (after s t1)" and t1: "marks t1 = [m]" "0 \<le> m" "m \<le> i"
      by auto
    from "1.IH" [OF True b] "1.prems" obtain t2 where
      r: "insertion_outer (i + 1) (after s t1) = Ok (after s (t1 @ t2))"
      and t2: "length (marks t2) = nat (len s - (i + 1))" "set (marks t2) \<subseteq> {0..<len s}"
      by auto
    have "length (marks (t1 @ t2)) = nat (len s - i)"
      using t1 t2 True by simp
    moreover have "set (marks (t1 @ t2)) \<subseteq> {0..<len s}"
      using t1 t2 True by simp
    ultimately show ?thesis using r
      by (intro exI [of _ "t1 @ t2"]) (simp add: insertion_outer_unfold True b)
  next
    case False
    then show ?thesis by (intro exI [of _ "[]"]) (simp add: insertion_outer_unfold)
  qed
qed

subsection \<open>Quick sort\<close>

lemma partition_body_eq:
  "inb s j \<Longrightarrow> 0 \<le> i + 1 \<Longrightarrow> i < j \<Longrightarrow>
   partition_body high pivot i j s =
     Ok (if js_le (heights s ! nat j) pivot
         then (i + 1, after s (Compare j high # (if i + 1 \<noteq> j then [Swap (i + 1) j] else [])))
         else (i, after s [Compare j high]))"
  by (simp add: partition_body_def emit_Compare swapBars_Ok inb_def Let_def)

lemma partition_loop_unfold:
  "j < high \<Longrightarrow>
   partition_loop high pivot i j s =
     bindR (partition_body high pivot i j s) (\<lambda>(i1, s1). partition_loop high pivot i1 (j + 1) s1)"
  "\<not> j < high \<Longrightarrow> partition_loop high pivot i j s = Ok (i, s)"
  by (subst partition_loop.simps, simp)+

lemma partition_loop_run:
  "0 \<le> i + 1 \<Longrightarrow> i < j \<Longrightarrow> j \<le> high \<Longrightarrow> high \<le> len s \<Longrightarrow>
   \<exists>i' t. partition_loop high pivot i j s = Ok (i', after s t) \<and> i \<le> i' \<and>
          i' + j \<le> i + high \<and> marks t = [] \<and> confined {i + 1..high - 1} t \<and> permuting t"
proof (induction high pivot i j s rule: partition_loop.induct)
  case (1 high pivot i j s)
  show ?case
  proof (cases "j < high")
    case True
    then have j: "inb s j" using 1 by (simp add: inb_def)
    define i1 where "i1 = (if js_le (heights s ! nat j) pivot then i + 1 else i)"
    define t1 where "t1 = (if js_le (heights s ! nat j) pivot
        then Compare j high # (if i + 1 \<noteq> j then [Swap (i + 1) j] else [])
        else [Compare j high])"
    have body: "partition_body high pivot i j s = Ok (i1, after s t1)"
      using partition_body_eq [OF j "1.prems"(1,2)] by (simp add: i1_def t1_def)
    have i1: "i \<le> i1" "i1 \<le> i + 1" by (auto simp: i1_def)
    have t1: "marks t1 = []" "confined {i + 1..high - 1} t1" "permuting t1"
      using True "1.prems" by (auto simp: t1_def)
    from "1.IH" [OF True body refl] "1.prems" i1 True obtain i' t where
      r: "partition_loop high pivot i1 (j + 1) (after s t1) = Ok (i', after s (t1 @ t))"
      and t: "i1 \<le> i'" "i' + (j + 1) \<le> i1 + high" "marks t = []" "confined {i1 + 1..high - 1} t"
        "permuting t"
      by auto
    have "confined {i + 1..high - 1} t"
      using t(4) i1 by (auto intro: confined_mono)
    with r t t1 i1 show ?thesis
      by (intro exI [of _ i'] exI [of _ "t1 @ t"])
         (simp add: partition_loop_unfold True body)
  next
    case False
    with "1.prems" show ?thesis
      by (intro exI [of _ i] exI [of _ "[]"]) (simp add: partition_loop_unfold)
  qed
qed

lemma partition_run:
  assumes "0 \<le> low" "low \<le> high" "high < len s"
  shows "\<exists>p t. partition low high s = Ok (p, after s t) \<and> low \<le> p \<and> p \<le> high \<and>
               marks t = [p] \<and> confined {low..high} t \<and> permuting t \<and> settled t"
proof -
  have h: "inb s high" using assms by (simp add: inb_def)
  from partition_loop_run [of "low - 1" low high s "heights s ! nat high"] assms obtain i t where
    r: "partition_loop high (heights s ! nat high) (low - 1) low s = Ok (i, after s t)"
    and t: "low - 1 \<le> i" "i + low \<le> low - 1 + high" "marks t = []" "confined {low..high - 1} t"
      "permuting t"
    by auto
  from t assms have i: "inb s (i + 1)" by (simp add: inb_def)
  have "partition low high s = Ok (i + 1, after s (t @ [Swap (i + 1) high, MarkFinal (i + 1)]))"
    using h i r by (simp add: partition_def swapBars_Ok markAsSorted_Ok)
  moreover have "confined {low..high} (t @ [Swap (i + 1) high, MarkFinal (i + 1)])"
    using t assms confined_mono [OF t(4), of "{low..high}"] by auto
  moreover have "settled (t @ [Swap (i + 1) high, MarkFinal (i + 1)])"
    using t(3) by (simp add: settled_append settled_no_marks)
  ultimately show ?thesis using t
    by (intro exI [of _ "i + 1"] exI [of _ "t @ [Swap (i + 1) high, MarkFinal (i + 1)]"]) simp
qed

lemma quickSortHelper_unfold:
  "low < high \<Longrightarrow>
   quickSortHelper low high s =
     bindR (partition low high s) (\<lambda>(p, s1).
     bindR (quickSortHelper low (p - 1) s1) (quickSortHelper (p + 1) high))"
  "\<not> low < high \<Longrightarrow> quickSortHelper low high s = Ok s"
  by (subst quickSortHelper.simps, simp)+

lemma quickSortHelper_run:
  "0 \<le> low \<Longrightarrow> high < len s \<Longrightarrow>
   \<exists>t. quickSortHelper low high s = Ok (after s t) \<and> confined {low..high} t \<and> permuting t \<and>
       set (marks t) \<subseteq> {low..high} \<and> distinct (marks t) \<and> settled t"
proof (induction low high s rule: quickSortHelper.induct)
  case (1 low high s)
  show ?case
  proof (cases "low < high")
    case True
    from partition_run [of low high s] True "1.prems" obtain p t1 where
      b: "partition low high s = Ok (p, after s t1)"
      and p: "low \<le> p" "p \<le> high" and t1: "confined {low..high} t1" "permuting t1"
      and m1: "marks t1 = [p]" "settled t1"
      by auto
    from "1.IH"(1) [OF True b refl] "1.prems" p obtain t2 where
      l: "quickSortHelper low (p - 1) (after s t1) = Ok (after s (t1 @ t2))"
      and t2: "confined {low..p - 1} t2" "permuting t2"
      and m2: "set (marks t2) \<subseteq> {low..p - 1}" "distinct (marks t2)" "settled t2"
      by auto
    from "1.IH"(2) [OF True b refl l] "1.prems" p obtain t3 where
      r: "quickSortHelper (p + 1) high (after s (t1 @ t2)) = Ok (after s (t1 @ t2 @ t3))"
      and t3: "confined {p + 1..high} t3" "permuting t3"
      and m3: "set (marks t3) \<subseteq> {p + 1..high}" "distinct (marks t3)" "settled t3"
      by auto
    have c: "confined {low..high} t2" "confined {low..high} t3"
      using t2 t3 p by (auto intro: confined_mono)
    have "set (marks t2) \<inter> {p + 1..high} = {}" using m2(1) by auto
    from settled_confined [OF m2(3) m3(3) t3(1) this] have s23: "settled (t2 @ t3)" .
    have "confined ({low..p - 1} \<union> {p + 1..high}) (t2 @ t3)"
      using t2(1) t3(1) by (auto intro: confined_mono)
    moreover have "set (marks t1) \<inter> ({low..p - 1} \<union> {p + 1..high}) = {}"
      using m1(1) by auto
    ultimately have st: "settled (t1 @ t2 @ t3)"
      using settled_confined [OF m1(2) s23] by blast
    have sub: "set (marks (t1 @ t2 @ t3)) \<subseteq> {low..high}"
      using m1(1) m2(1) m3(1) p by auto
    have "{low..p - 1} \<inter> {p + 1..high} = {}" "p \<notin> {low..p - 1}" "p \<notin> {p + 1..high}"
      by auto
    then have "set (marks t2) \<inter> set (marks t3) = {}" "p \<notin> set (marks t2)"
      "p \<notin> set (marks t3)"
      using m2(1) m3(1) by blast+
    then have dis: "distinct (marks (t1 @ t2 @ t3))"
      using m1(1) m2(2) m3(2) by simp
    from t1 t2 t3 c b l r st sub dis show ?thesis
      by (intro exI [of _ "t1 @ t2 @ t3"]) (simp add: quickSortHelper_unfold True)
  next
    case False
    then show ?thesis by (intro exI [of _ "[]"]) (simp add: quickSortHelper_unfold)
  qed
qed

subsection \<open>Merge sort\<close>

lemma length_slice:
  "0 \<le> a \<Longrightarrow> a \<le> b \<Longrightarrow> b \<le> int (length xs) \<Longrightarrow> length (slice xs a b) = nat (b - a)"
  unfolding slice_def Let_def by simp

lemma slice_eq:
  "0 \<le> a \<Longrightarrow> a \<le> b \<Longrightarrow> b \<le> int (length xs) \<Longrightarrow>
   slice xs a b = take (nat (b - a)) (drop (nat a) xs)"
  by (simp add: slice_def Let_def min_def)

lemma merge_body_eq:
  "inb s k \<Longrightarrow> 0 \<le> i \<Longrightarrow> i < int (length la) \<Longrightarrow> 0 \<le> j \<Longrightarrow> j < int (length ra) \<Longrightarrow>
   merge_body left mid la ra i j k s =
     Ok (if js_le (la ! nat i) (ra ! nat j)
         then (i + 1, j, after s [Compare (left + i) (mid + 1 + j), Overwrite k (la ! nat i), MarkFinal k])
         else (i, j + 1, after s [Compare (left + i) (mid + 1 + j), Overwrite k (ra ! nat j), MarkFinal k]))"
  by (simp add: merge_body_def emit_Compare place_Ok Let_def)

lemma merge_both_unfold:
  "i < int (length la) \<and> j < int (length ra) \<Longrightarrow>
   merge_both left mid la ra i j k s =
     bindR (merge_body left mid la ra i j k s) (\<lambda>(i1, j1, s1).
       merge_both left mid la ra i1 j1 (k + 1) s1)"
  "\<not> (i < int (length la) \<and> j < int (length ra)) \<Longrightarrow>
   merge_both left mid la ra i j k s = Ok (i, j, k, s)"
  by (subst merge_both.simps, auto)+

lemma merge_both_run:
  "0 \<le> i \<Longrightarrow> 0 \<le> j \<Longrightarrow> 0 \<le> k \<Longrightarrow> i \<le> int (length la) \<Longrightarrow> j \<le> int (length ra) \<Longrightarrow>
   k + (int (length la) - i) + (int (length ra) - j) \<le> len s \<Longrightarrow>
   \<exists>i' j' t. merge_both left mid la ra i j k s = Ok (i', j', k + (i' - i) + (j' - j), after s t) \<and>
     i \<le> i' \<and> i' \<le> int (length la) \<and> j \<le> j' \<and> j' \<le> int (length ra) \<and>
     confined {k..k + (i' - i) + (j' - j) - 1} t \<and> marks t = [k..k + (i' - i) + (j' - j) - 1]"
proof (induction left mid la ra i j k s rule: merge_both.induct)
  case (1 left mid la ra i j k s)
  show ?case
  proof (cases "i < int (length la) \<and> j < int (length ra)")
    case True
    then have k: "inb s k" using "1.prems" by (simp add: inb_def)
    define c where "c = js_le (la ! nat i) (ra ! nat j)"
    define i1 where "i1 = (if c then i + 1 else i)"
    define j1 where "j1 = (if c then j else j + 1)"
    define t1 where "t1 = [Compare (left + i) (mid + 1 + j),
       Overwrite k (if c then la ! nat i else ra ! nat j), MarkFinal k]"
    have body: "merge_body left mid la ra i j k s = Ok (i1, j1, after s t1)"
      using merge_body_eq [OF k "1.prems"(1) _ "1.prems"(2), of la ra left mid] True
      by (simp add: c_def i1_def j1_def t1_def)
    have ij: "(i1 = i + 1 \<and> j1 = j) \<or> (i1 = i \<and> j1 = j + 1)"
      by (auto simp: i1_def j1_def)
    have t1: "confined {k} t1" "marks t1 = [k]" by (simp_all add: t1_def)
    from "1.IH" [OF True body refl refl] "1.prems" True ij obtain i' j' t where
      r: "merge_both left mid la ra i1 j1 (k + 1) (after s t1)
          = Ok (i', j', k + 1 + (i' - i1) + (j' - j1), after s (t1 @ t))"
      and t: "i1 \<le> i'" "i' \<le> int (length la)" "j1 \<le> j'" "j' \<le> int (length ra)"
        "confined {k + 1..k + 1 + (i' - i1) + (j' - j1) - 1} t"
      and m: "marks t = [k + 1..k + 1 + (i' - i1) + (j' - j1) - 1]"
      by auto
    have e: "k + 1 + (i' - i1) + (j' - j1) = k + (i' - i) + (j' - j)"
      using ij by auto
    have "k \<le> k + (i' - i) + (j' - j) - 1" using t(1,3) ij by auto
    then have "[k..k + (i' - i) + (j' - j) - 1] = k # [k + 1..k + (i' - i) + (j' - j) - 1]"
      by (rule upto_rec1)
    then have "marks (t1 @ t) = [k..k + (i' - i) + (j' - j) - 1]"
      using t1(2) m unfolding e by simp
    moreover have "confined {k..k + (i' - i) + (j' - j) - 1} (t1 @ t)"
      using t1(1) t(5) t(1,3) ij unfolding e
      by (auto intro: confined_mono)
    ultimately show ?thesis using r t ij e
      by (intro exI [of _ i'] exI [of _ j'] exI [of _ "t1 @ t"])
         (auto simp: merge_both_unfold True body)
  next
    case False
    with "1.prems" show ?thesis
      by (intro exI [of _ i] exI [of _ j] exI [of _ "[]"]) (simp add: merge_both_unfold)
  qed
qed

lemma merge_rest_unfold:
  "i < int (length buf) \<Longrightarrow>
   merge_rest buf i k s =
     bindR (aget s buf i) (\<lambda>a. bindR (place k a s) (merge_rest buf (i + 1) (k + 1)))"
  "\<not> i < int (length buf) \<Longrightarrow> merge_rest buf i k s = Ok (k, s)"
  by (subst merge_rest.simps, simp)+

lemma merge_rest_run:
  "0 \<le> i \<Longrightarrow> 0 \<le> k \<Longrightarrow> i \<le> int (length buf) \<Longrightarrow> k + (int (length buf) - i) \<le> len s \<Longrightarrow>
   \<exists>t. merge_rest buf i k s = Ok (k + (int (length buf) - i), after s t) \<and>
       confined {k..k + (int (length buf) - i) - 1} t \<and>
       marks t = [k..k + (int (length buf) - i) - 1]"
proof (induction buf i k s rule: merge_rest.induct)
  case (1 buf i k s)
  show ?case
  proof (cases "i < int (length buf)")
    case True
    then have k: "inb s k" using "1.prems" by (simp add: inb_def)
    have a: "aget s buf i = Ok (buf ! nat i)" using True "1.prems" by simp
    have p: "place k (buf ! nat i) s = Ok (after s [Overwrite k (buf ! nat i), MarkFinal k])"
      using k by (rule place_Ok)
    from "1.IH" [OF True a p] "1.prems" True obtain t where
      r: "merge_rest buf (i + 1) (k + 1) (after s [Overwrite k (buf ! nat i), MarkFinal k])
          = Ok (k + 1 + (int (length buf) - (i + 1)),
                after s ([Overwrite k (buf ! nat i), MarkFinal k] @ t))"
      and t: "confined {k + 1..k + 1 + (int (length buf) - (i + 1)) - 1} t"
      and m: "marks t = [k + 1..k + 1 + (int (length buf) - (i + 1)) - 1]"
      by auto
    have "k \<le> k + (int (length buf) - i) - 1" using True by simp
    then have "[k..k + (int (length buf) - i) - 1] = k # [k + 1..k + (int (length buf) - i) - 1]"
      by (rule upto_rec1)
    then have "marks ([Overwrite k (buf ! nat i), MarkFinal k] @ t)
               = [k..k + (int (length buf) - i) - 1]"
      using m by simp
    moreover
    have "confined {k..k + (int (length buf) - i) - 1} ([Overwrite k (buf ! nat i), MarkFinal k] @ t)"
      using t True by (auto intro: confined_mono)
    ultimately show ?thesis using r
      by (intro exI [of _ "[Overwrite k (buf ! nat i), MarkFinal k] @ t"])
         (simp add: merge_rest_unfold True a p)
  next
    case False
    with "1.prems" show ?thesis
      by (intro exI [of _ "[]"]) (simp add: merge_rest_unfold)
  qed
qed

lemma upto_append: "i \<le> j \<Longrightarrow> j \<le> k + 1 \<Longrightarrow> [i..j - 1] @ [j..k] = [i..k]"
proof (cases "j \<le> k")
  case True
  assume "i \<le> j"
  from upto_split1 [OF this True] show ?thesis by simp
next
  case False
  assume "j \<le> k + 1"
  with False have "j = k + 1" by simp
  then show ?thesis by simp
qed

lemma merge_run:
  assumes "0 \<le> left" "left \<le> mid" "mid < right" "right < len s"
  shows "\<exists>t. merge left mid right s = Ok (after s t) \<and> confined {left..right} t \<and>
             marks t = [left..right]"
proof -
  define la where "la = slice (heights s) left (mid + 1)"
  define ra where "ra = slice (heights s) (mid + 1) (right + 1)"
  have la: "int (length la) = mid + 1 - left" and ra: "int (length ra) = right - mid"
    using assms by (simp_all add: la_def ra_def length_slice len_def)
  from merge_both_run [of 0 0 left la ra s left mid] assms la ra obtain i j t1 where
    b: "merge_both left mid la ra 0 0 left s = Ok (i, j, left + i + j, after s t1)"
    and ij: "0 \<le> i" "i \<le> int (length la)" "0 \<le> j" "j \<le> int (length ra)"
    and t1: "confined {left..left + i + j - 1} t1" "marks t1 = [left..left + i + j - 1]"
    by auto
  define k1 where "k1 = left + i + j"
  define k2 where "k2 = k1 + (int (length la) - i)"
  define k3 where "k3 = k2 + (int (length ra) - j)"
  have k: "left \<le> k1" "k1 \<le> k2" "k2 \<le> k3" "k3 = right + 1"
    using ij la ra by (simp_all add: k1_def k2_def k3_def)
  from merge_rest_run [of i k1 la "after s t1"] assms la ra ij obtain t2 where
    l: "merge_rest la i k1 (after s t1) = Ok (k2, after s (t1 @ t2))"
    and t2: "confined {k1..k2 - 1} t2" "marks t2 = [k1..k2 - 1]"
    by (auto simp: k1_def k2_def)
  from merge_rest_run [of j k2 ra "after s (t1 @ t2)"] assms la ra ij obtain t3 where
    r: "merge_rest ra j k2 (after s (t1 @ t2)) = Ok (k3, after s (t1 @ t2 @ t3))"
    and t3: "confined {k2..k3 - 1} t3" "marks t3 = [k2..k3 - 1]"
    by (auto simp: k1_def k2_def k3_def)
  have "confined {left..right} t1" "confined {left..right} t2" "confined {left..right} t3"
    using t1(1) t2(1) t3(1) k by (auto simp: k1_def intro: confined_mono)
  moreover have "merge left mid right s = Ok (after s (t1 @ t2 @ t3))"
    using b l r
    by (simp add: merge_def Let_def la_def [symmetric] ra_def [symmetric] k1_def [symmetric])
  moreover have "marks (t1 @ t2 @ t3) = [left..right]"
  proof -
    have "[k1..k2 - 1] @ [k2..right] = [k1..right]"
      using k by (intro upto_append) simp_all
    moreover have "[left..k1 - 1] @ [k1..right] = [left..right]"
      using k by (intro upto_append) simp_all
    ultimately show ?thesis using t1(2) t2(2) t3(2) k(4) by (simp add: k1_def [symmetric])
  qed
  ultimately show ?thesis by (intro exI [of _ "t1 @ t2 @ t3"]) simp
qed

lemma mergeSortHelper_unfold:
  "left < right \<Longrightarrow>
   mergeSortHelper left right s =
     bindR (mergeSortHelper left ((left + right) div 2) s) (\<lambda>s1.
     bindR (mergeSortHelper ((left + right) div 2 + 1) right s1)
       (merge left ((left + right) div 2) right))"
  "\<not> left < right \<Longrightarrow> mergeSortHelper left right s = Ok s"
  by (subst mergeSortHelper.simps, simp add: Let_def)+

text \<open>
  The marks of merge sort do not depend on the values: every call of \<^verbatim>\<open>merge\<close> marks
  each slot of its range, after the two recursive calls have marked theirs.
\<close>

function merge_marks :: "int \<Rightarrow> int \<Rightarrow> int list" where
  "merge_marks left right =
     (if left < right
      then merge_marks left ((left + right) div 2) @ merge_marks ((left + right) div 2 + 1) right @
           [left..right]
      else [])"
  by pat_completeness auto
termination
  by (relation "measure (\<lambda>(left, right). nat (right - left))") auto

declare merge_marks.simps [simp del]

lemma set_merge_marks: "set (merge_marks left right) \<subseteq> {left..right}"
proof (induction left right rule: merge_marks.induct)
  case (1 left right)
  show ?case
  proof (cases "left < right")
    case True
    define mid where "mid = (left + right) div 2"
    have "{left..mid} \<subseteq> {left..right}" "{mid + 1..right} \<subseteq> {left..right}"
      using True by (auto simp: mid_def)
    with "1.IH" [OF True] have "set (merge_marks left mid) \<subseteq> {left..right}"
      "set (merge_marks (mid + 1) right) \<subseteq> {left..right}"
      unfolding mid_def by blast+
    with True show ?thesis by (subst merge_marks.simps) (simp add: mid_def)
  next
    case False
    then show ?thesis by (subst merge_marks.simps) simp
  qed
qed

lemma mergeSortHelper_run:
  "0 \<le> left \<Longrightarrow> right < len s \<Longrightarrow>
   \<exists>t. mergeSortHelper left right s = Ok (after s t) \<and> confined {left..right} t \<and>
       marks t = merge_marks left right"
proof (induction left right s rule: mergeSortHelper.induct)
  case (1 left right s)
  show ?case
  proof (cases "left < right")
    case True
    define mid where "mid = (left + right) div 2"
    have mid: "left \<le> mid" "mid < right" using True by (auto simp: mid_def)
    from "1.IH"(1) [OF True mid_def] "1.prems" mid obtain t1 where
      l: "mergeSortHelper left mid s = Ok (after s t1)" and t1: "confined {left..mid} t1"
      and m1: "marks t1 = merge_marks left mid"
      by auto
    from "1.IH"(2) [OF True mid_def l] "1.prems" mid obtain t2 where
      r: "mergeSortHelper (mid + 1) right (after s t1) = Ok (after s (t1 @ t2))"
      and t2: "confined {mid + 1..right} t2" and m2: "marks t2 = merge_marks (mid + 1) right"
      by auto
    from merge_run [of left mid right "after s (t1 @ t2)"] "1.prems" mid obtain t3 where
      m: "merge left mid right (after s (t1 @ t2)) = Ok (after s (t1 @ t2 @ t3))"
      and t3: "confined {left..right} t3" and m3: "marks t3 = [left..right]"
      by auto
    have "merge_marks left right = merge_marks left mid @ merge_marks (mid + 1) right @ [left..right]"
      using True by (subst merge_marks.simps) (simp add: mid_def)
    then have "marks (t1 @ t2 @ t3) = merge_marks left right"
      using m1 m2 m3 by simp
    moreover have "confined {left..right} t1" "confined {left..right} t2"
      using t1 t2 mid by (auto intro: confined_mono)
    ultimately show ?thesis using l r m t3
      by (intro exI [of _ "t1 @ t2 @ t3"])
         (simp add: mergeSortHelper_unfold True mid_def [symmetric])
  next
    case False
    then have "merge_marks left right = []" by (subst merge_marks.simps) simp
    with False show ?thesis by (intro exI [of _ "[]"]) (simp add: mergeSortHelper_unfold)
  qed
qed

subsection \<open>Heap sort\<close>

lemma pick_larger_eq:
  "(c < n \<Longrightarrow> inb s c \<and> inb s l) \<Longrightarrow>
   pick_larger n c l s =
     Ok (if c < n
         then (if js_gt (heights s ! nat c) (heights s ! nat l) then c else l, after s [Compare c l])
         else (l, s))"
  by (simp add: pick_larger_def emit_Compare)

lemma heapify_swap_eq:
  "inb s i \<Longrightarrow> inb s l \<Longrightarrow> heapify_swap i l s = Ok (after s [Swap i l])"
  by (simp add: heapify_swap_def swapBars_Ok)

lemma heapify_run:
  "0 \<le> i \<Longrightarrow> n \<le> len s \<Longrightarrow>
   \<exists>t. heapify n i s = Ok (after s t) \<and> marks t = [] \<and> confined {0..<n} t \<and> permuting t"
proof (induction n i s rule: heapify.induct)
  case (1 n i s)
  define l1 where "l1 = (if 2 * i + 1 < n \<and> js_gt (heights s ! nat (2 * i + 1)) (heights s ! nat i)
      then 2 * i + 1 else i)"
  define t1 where "t1 = (if 2 * i + 1 < n then [Compare (2 * i + 1) i] else [])"
  define l2 where "l2 = (if 2 * i + 2 < n \<and> js_gt (heights s ! nat (2 * i + 2)) (heights s ! nat l1)
      then 2 * i + 2 else l1)"
  define t2 where "t2 = (if 2 * i + 2 < n then [Compare (2 * i + 2) l1] else [])"
  have l1: "l1 = i \<or> (l1 = 2 * i + 1 \<and> 2 * i + 1 < n)"
    by (auto simp: l1_def)
  have l2: "l2 = l1 \<or> (l2 = 2 * i + 2 \<and> 2 * i + 2 < n)"
    by (auto simp: l2_def)
  have p1: "pick_larger n (2 * i + 1) i s = Ok (l1, after s t1)"
    using "1.prems" by (subst pick_larger_eq) (auto simp: inb_def l1_def t1_def)
  have p2: "pick_larger n (2 * i + 2) l1 (after s t1) = Ok (l2, after s (t1 @ t2))"
    using "1.prems" l1 by (subst pick_larger_eq) (auto simp: inb_def l2_def t2_def t1_def)
  have t12: "marks (t1 @ t2) = []" "confined {0..<n} (t1 @ t2)" "permuting (t1 @ t2)"
    by (auto simp: t1_def t2_def)
  show ?case
  proof (cases "l2 \<noteq> i")
    case True
    have b: "inb s i" "inb s l2"
      using l1 l2 True "1.prems" by (auto simp: inb_def)
    then have sw: "heapify_swap i l2 (after s (t1 @ t2)) = Ok (after s (t1 @ t2 @ [Swap i l2]))"
      by (simp add: heapify_swap_eq)
    from "1.IH" [OF p1 refl p2 refl True sw] b "1.prems" obtain t where
      r: "heapify n l2 (after s (t1 @ t2 @ [Swap i l2])) = Ok (after s ((t1 @ t2 @ [Swap i l2]) @ t))"
      and t: "marks t = []" "confined {0..<n} t" "permuting t"
      by (auto simp: inb_def)
    have "confined {0..<n} [Swap i l2]"
      using l1 l2 True "1.prems" by auto
    with r t t12 True show ?thesis
      by (intro exI [of _ "(t1 @ t2 @ [Swap i l2]) @ t"])
         (subst heapify.simps, simp add: p1 p2 sw)
  next
    case False
    with t12 show ?thesis
      by (intro exI [of _ "t1 @ t2"]) (subst heapify.simps, simp add: p1 p2)
  qed
qed

lemma heap_build_unfold:
  "0 \<le> i \<Longrightarrow> heap_build i s = bindR (heapify (len s) i s) (heap_build (i - 1))"
  "\<not> 0 \<le> i \<Longrightarrow> heap_build i s = Ok s"
  by (subst heap_build.simps, simp)+

lemma heap_build_run:
  "\<exists>t. heap_build i s = Ok (after s t) \<and> marks t = []"
proof (induction i s rule: heap_build.induct)
  case (1 i s)
  show ?case
  proof (cases "0 \<le> i")
    case True
    from heapify_run [OF True, of "len s" s] obtain t1 where
      b: "heapify (len s) i s = Ok (after s t1)" and t1: "marks t1 = []"
      by auto
    from "1.IH" [OF True b] obtain t2 where
      "heap_build (i - 1) (after s t1) = Ok (after s (t1 @ t2))" "marks t2 = []"
      by auto
    with t1 show ?thesis
      by (intro exI [of _ "t1 @ t2"]) (simp add: heap_build_unfold True b)
  next
    case False
    then show ?thesis by (intro exI [of _ "[]"]) (simp add: heap_build_unfold)
  qed
qed

lemma heap_pop_run:
  assumes "0 < i" "i < len s"
  shows "\<exists>t. heap_pop i s = Ok (after s t) \<and> marks t = [i] \<and> confined {0..i} t \<and> settled t"
proof -
  have b: "inb s 0" "inb s i" using assms by (auto simp: inb_def)
  from heapify_run [of 0 i "after s [Swap 0 i, MarkFinal i]"] assms obtain t where
    h: "heapify i 0 (after s [Swap 0 i, MarkFinal i]) = Ok (after s ([Swap 0 i, MarkFinal i] @ t))"
    and t: "marks t = []" "confined {0..<i} t"
    by auto
  have "heap_pop i s = Ok (after s ([Swap 0 i, MarkFinal i] @ t))"
    using b h by (simp add: heap_pop_def swapBars_Ok markAsSorted_Ok)
  moreover have "confined {0..i} ([Swap 0 i, MarkFinal i] @ t)"
    using t assms by (auto intro: confined_mono)
  moreover have "\<forall>u \<in> set t. i \<notin> set (writes u)"
    using t(2) by (force simp: confined_def)
  then have "settled ([Swap 0 i, MarkFinal i] @ t)"
    using t by (simp add: list_all_iff settled_no_marks)
  ultimately show ?thesis using t
    by (intro exI [of _ "[Swap 0 i, MarkFinal i] @ t"]) simp
qed

lemma heap_extract_unfold:
  "0 < i \<Longrightarrow> heap_extract i s = bindR (heap_pop i s) (heap_extract (i - 1))"
  "\<not> 0 < i \<Longrightarrow> heap_extract i s = Ok s"
  by (subst heap_extract.simps, simp)+

lemma heap_extract_run:
  "i < len s \<Longrightarrow>
   \<exists>t. heap_extract i s = Ok (after s t) \<and> marks t = rev [1..i] \<and> confined {0..i} t \<and> settled t"
proof (induction i s rule: heap_extract.induct)
  case (1 i s)
  show ?case
  proof (cases "0 < i")
    case True
    from heap_pop_run [OF True "1.prems"] obtain t1 where
      b: "heap_pop i s = Ok (after s t1)"
      and t1: "marks t1 = [i]" "confined {0..i} t1" "settled t1"
      by auto
    from "1.IH" [OF True b] "1.prems" obtain t2 where
      r: "heap_extract (i - 1) (after s t1) = Ok (after s (t1 @ t2))"
      and t2: "marks t2 = rev [1..i - 1]" "confined {0..i - 1} t2" "settled t2"
      by auto
    have "[1..i] = [1..i - 1] @ [i]"
      using True by (simp add: upto_rec2)
    moreover have "settled (t1 @ t2)"
      using t1 t2 by (intro settled_confined [of t1 t2 "{0..i - 1}"]) auto
    moreover have "confined {0..i} t2"
      using t2 by (auto intro: confined_mono)
    ultimately show ?thesis using r t1 t2
      by (intro exI [of _ "t1 @ t2"]) (simp add: heap_extract_unfold True b)
  next
    case False
    then show ?thesis by (intro exI [of _ "[]"]) (simp add: heap_extract_unfold)
  qed
qed

lemma heapSort_run:
  assumes "0 < len s"
  shows "\<exists>t. heapSort s = Ok (after s t) \<and> marks t = rev [0..len s - 1] \<and> settled t"
proof -
  from heap_build_run [of "len s div 2 - 1" s] obtain t1 where
    b: "heap_build (len s div 2 - 1) s = Ok (after s t1)" and t1: "marks t1 = []"
    by auto
  from heap_extract_run [of "len s - 1" "after s t1"] obtain t2 where
    e: "heap_extract (len s - 1) (after s t1) = Ok (after s (t1 @ t2))"
    and t2: "marks t2 = rev [1..len s - 1]" "settled t2"
    by auto
  have m: "markAsSorted 0 (after s (t1 @ t2)) = Ok (after s (t1 @ t2 @ [MarkFinal 0]))"
    using assms by (simp add: markAsSorted_Ok inb_def)
  have "[0..len s - 1] = 0 # [1..len s - 1]"
    using assms by (simp add: upto_rec1)
  moreover have "settled (t1 @ t2 @ [MarkFinal 0])"
    using t1 t2 by (auto simp: settled_append settled_no_marks)
  moreover have "heapSort s = Ok (after s (t1 @ t2 @ [MarkFinal 0]))"
    using b e m by (simp add: heapSort_def)
  ultimately show ?thesis using t1 t2
    by (intro exI [of _ "t1 @ t2 @ [MarkFinal 0]"]) simp
qed

lemma heapSort_empty: "len s = 0 \<Longrightarrow> heapSort s = Threw s"
  by (simp add: heapSort_def heap_build_unfold heap_extract_unfold markAsSorted_def inb_def)

subsection \<open>Shell sort\<close>

lemma shell_inner_unfold:
  "gap \<le> j \<Longrightarrow> inb s (j - gap) \<Longrightarrow> inb s j \<Longrightarrow> js_gt (heights s ! nat (j - gap)) temp \<Longrightarrow>
   shell_inner i gap temp j s =
     shell_inner i gap temp (j - gap)
       (after s [Compare (j - gap) i, Overwrite j (heights s ! nat (j - gap))])"
  "gap \<le> j \<Longrightarrow> inb s (j - gap) \<Longrightarrow> \<not> js_gt (heights s ! nat (j - gap)) temp \<Longrightarrow>
   shell_inner i gap temp j s = Some (Ok (j, after s [Compare (j - gap) i]))"
  "\<not> gap \<le> j \<Longrightarrow> shell_inner i gap temp j s = Some (Ok (j, s))"
  by (subst shell_inner.simps, simp add: shell_shift_def emit_Compare overwrite_Ok)+

lemma shell_inner_run:
  "0 < gap \<Longrightarrow> 0 \<le> j \<Longrightarrow> j < len s \<Longrightarrow>
   \<exists>j' t. shell_inner i gap temp j s = Some (Ok (j', after s t)) \<and> 0 \<le> j' \<and> j' \<le> j \<and>
          marks t = []"
proof (induction "nat j" arbitrary: j s rule: less_induct)
  case less
  show ?case
  proof (cases "gap \<le> j")
    case True
    then have b: "inb s (j - gap)" "inb s j" using less.prems by (auto simp: inb_def)
    show ?thesis
    proof (cases "js_gt (heights s ! nat (j - gap)) temp")
      case gt: True
      define s1 where "s1 = after s [Compare (j - gap) i, Overwrite j (heights s ! nat (j - gap))]"
      have "nat (j - gap) < nat j" using True less.prems by simp
      from less.hyps [OF this, of s1] True less.prems obtain j' t where
        "shell_inner i gap temp (j - gap) s1 = Some (Ok (j', after s1 t))"
        "0 \<le> j'" "j' \<le> j - gap" "marks t = []"
        by (auto simp: s1_def)
      then show ?thesis
        using shell_inner_unfold(1) [OF True b gt, of i] less.prems
        by (intro exI [of _ j']
              exI [of _ "[Compare (j - gap) i, Overwrite j (heights s ! nat (j - gap))] @ t"])
           (simp add: s1_def)
    next
      case False
      then show ?thesis
        using shell_inner_unfold(2) [OF True b(1) False, of i] less.prems
        by (intro exI [of _ j] exI [of _ "[Compare (j - gap) i]"]) simp
    qed
  next
    case False
    then show ?thesis using less.prems
      by (intro exI [of _ j] exI [of _ "[]"]) (simp add: shell_inner_unfold)
  qed
qed

lemma shell_step_run:
  assumes "0 < gap" "inb s i"
  shows "\<exists>t. shell_step gap i s = Some (Ok (after s t)) \<and> marks t = []"
proof -
  from assms have "0 \<le> i" "i < len s" by (auto simp: inb_def)
  from shell_inner_run [OF assms(1) this, of i "heights s ! nat i"] obtain j t where
    r: "shell_inner i gap (heights s ! nat i) i s = Some (Ok (j, after s t))"
    and j: "0 \<le> j" "j \<le> i" and t: "marks t = []"
    by auto
  from j assms have "inb s j" by (auto simp: inb_def)
  then show ?thesis using assms r t
    by (intro exI [of _ "t @ [Overwrite j (heights s ! nat i)]"])
       (simp add: shell_step_def overwrite_Ok)
qed

lemma shell_pass_unfold:
  "i < n \<Longrightarrow> shell_pass n gap i s = bindO (shell_step gap i s) (shell_pass n gap (i + 1))"
  "\<not> i < n \<Longrightarrow> shell_pass n gap i s = Some (Ok s)"
  by (subst shell_pass.simps, simp)+

lemma shell_pass_run:
  "0 < gap \<Longrightarrow> 0 \<le> i \<Longrightarrow> n \<le> len s \<Longrightarrow>
   \<exists>t. shell_pass n gap i s = Some (Ok (after s t)) \<and> marks t = []"
proof (induction n gap i s rule: shell_pass.induct)
  case (1 n gap i s)
  show ?case
  proof (cases "i < n")
    case True
    then have "inb s i" using 1 by (simp add: inb_def)
    from shell_step_run [OF "1.prems"(1) this] obtain t1 where
      b: "shell_step gap i s = Some (Ok (after s t1))" and t1: "marks t1 = []"
      by auto
    from "1.IH" [OF True b] "1.prems" obtain t2 where
      "shell_pass n gap (i + 1) (after s t1) = Some (Ok (after s (t1 @ t2)))" "marks t2 = []"
      by auto
    with t1 show ?thesis
      by (intro exI [of _ "t1 @ t2"]) (simp add: shell_pass_unfold True b)
  next
    case False
    then show ?thesis by (intro exI [of _ "[]"]) (simp add: shell_pass_unfold)
  qed
qed

lemma shell_gaps_unfold:
  "0 < gap \<Longrightarrow>
   shell_gaps n gap s = bindO (shell_pass n gap gap s) (shell_gaps n (gap div 2))"
  "\<not> 0 < gap \<Longrightarrow> shell_gaps n gap s = Some (Ok s)"
  by (subst shell_gaps.simps, simp)+

lemma shell_gaps_run:
  "n \<le> len s \<Longrightarrow> \<exists>t. shell_gaps n gap s = Some (Ok (after s t)) \<and> marks t = []"
proof (induction n gap s rule: shell_gaps.induct)
  case (1 n gap s)
  show ?case
  proof (cases "0 < gap")
    case True
    from shell_pass_run [OF True _ "1.prems", of gap] True obtain t1 where
      b: "shell_pass n gap gap s = Some (Ok (after s t1))" and t1: "marks t1 = []"
      by auto
    from "1.IH" [OF True b] "1.prems" obtain t2 where
      "shell_gaps n (gap div 2) (after s t1) = Some (Ok (after s (t1 @ t2)))" "marks t2 = []"
      by auto
    with t1 show ?thesis
      by (intro exI [of _ "t1 @ t2"]) (simp add: shell_gaps_unfold True b)
  next
    case False
    then show ?thesis by (intro exI [of _ "[]"]) (simp add: shell_gaps_unfold)
  qed
qed

lemma shellSort_run:
  "\<exists>t. shellSort s = Some (Ok (after s (t @ map MarkFinal [0..len s - 1]))) \<and> marks t = []"
proof -
  from shell_gaps_run [of "len s" s "len s div 2"] obtain t where
    b: "shell_gaps (len s) (len s div 2) s = Some (Ok (after s t))" and t: "marks t = []"
    by auto
  have "mark_all (len s) 0 (after s t) = Ok (after (after s t) (map MarkFinal [0..len s - 1]))"
    by (rule mark_all_eq) simp_all
  with b t show ?thesis by (auto simp: shellSort_def Let_def)
qed

subsection \<open>Whole runs\<close>

lemma len_init [simp]: "len (init xs) = int (length xs)"
  by (simp add: len_def init_def)

lemma heights_init [simp]: "heights (init xs) = xs"
  by (simp add: init_def)

lemma trace_init [simp]: "trace (init xs) = []"
  by (simp add: init_def)

lemma algorithms_cases:
  assumes "algorithm \<in> set algorithms"
  obtains "algorithm = ''bubble''" | "algorithm = ''selection''" | "algorithm = ''insertion''"
    | "algorithm = ''quick''" | "algorithm = ''merge''" | "algorithm = ''heap''"
    | "algorithm = ''shell''"
proof -
  from assms have "algorithm = ''bubble'' \<or> algorithm = ''selection'' \<or>
      algorithm = ''insertion'' \<or> algorithm = ''quick'' \<or> algorithm = ''merge'' \<or>
      algorithm = ''heap'' \<or> algorithm = ''shell''"
    by (simp only: algorithms_def set_simps insert_iff empty_iff simp_thms)
  then show thesis
    by (elim disjE) (erule that)+
qed

lemma startSort_simps:
  "startSort ''bubble'' s = Some (bubbleSort s)"
  "startSort ''selection'' s = Some (selectionSort s)"
  "startSort ''insertion'' s = Some (insertionSort s)"
  "startSort ''quick'' s = Some (quickSort s)"
  "startSort ''merge'' s = Some (mergeSort s)"
  "startSort ''heap'' s = Some (heapSort s)"
  "startSort ''shell'' s = shellSort s"
  by (simp_all add: startSort_def)

lemma startSort_run:
  assumes "algorithm \<in> set algorithms" and "algorithm \<noteq> ''heap'' \<or> 0 < len s"
  shows "\<exists>t. startSort algorithm s = Some (Ok (after s t))"
proof -
  from assms(1) show ?thesis
  proof (cases rule: algorithms_cases)
    case 1
    with bubbleSort_run [of s] show ?thesis by (auto simp: startSort_simps)
  next
    case 2
    with selection_outer_run [of 0 s] show ?thesis
      by (auto simp: startSort_simps selectionSort_def)
  next
    case 3
    with insertion_outer_run [of 1 s] show ?thesis
      by (auto simp: startSort_simps insertionSort_def)
  next
    case 4
    with quickSortHelper_run [of 0 "len s - 1" s] show ?thesis
      by (auto simp: startSort_simps quickSort_def)
  next
    case 5
    with mergeSortHelper_run [of 0 "len s - 1" s] show ?thesis
      by (auto simp: startSort_simps mergeSort_def)
  next
    case 6
    with heapSort_run [of s] assms(2) show ?thesis by (auto simp: startSort_simps)
  next
    case 7
    with shellSort_run [of s] show ?thesis by (auto simp: startSort_simps)
  qed
qed

lemma startSort_heap_empty: "len s = 0 \<Longrightarrow> startSort ''heap'' s = Some (Threw s)"
  by (simp add: startSort_simps heapSort_empty)

lemma startSort_marks:
  assumes "algorithm \<in> {''bubble'', ''selection'', ''heap'', ''shell''}"
    and "algorithm \<noteq> ''heap'' \<or> 0 < len s"
  shows "\<exists>t. startSort algorithm s = Some (Ok (after s t)) \<and>
             mset (marks t) = mset [0..len s - 1] \<and> settled t"
proof -
  from assms(1) have "algorithm = ''bubble'' \<or> algorithm = ''selection'' \<or>
      algorithm = ''heap'' \<or> algorithm = ''shell''"
    by (simp only: insert_iff empty_iff simp_thms)
  then consider "algorithm = ''bubble''" | "algorithm = ''selection''" | "algorithm = ''heap''"
    | "algorithm = ''shell''"
    by (elim disjE) simp_all
  then show ?thesis
  proof cases
    case 1
    from bubbleSort_run [of s] obtain t where
      t: "bubbleSort s = Ok (after s (t @ map MarkFinal [0..len s - 1]))" "marks t = []"
      by auto
    then have "settled (t @ map MarkFinal [0..len s - 1])"
      by (simp add: settled_append settled_no_marks)
    with t 1 show ?thesis
      by (intro exI [of _ "t @ map MarkFinal [0..len s - 1]"]) (simp add: startSort_simps)
  next
    case 2
    with selection_outer_run [of 0 s] show ?thesis
      by (auto simp: startSort_simps selectionSort_def)
  next
    case 3
    with heapSort_run [of s] assms(2) show ?thesis by (auto simp: startSort_simps)
  next
    case 4
    from shellSort_run [of s] obtain t where
      t: "shellSort s = Some (Ok (after s (t @ map MarkFinal [0..len s - 1])))" "marks t = []"
      by auto
    then have "settled (t @ map MarkFinal [0..len s - 1])"
      by (simp add: settled_append settled_no_marks)
    with t 4 show ?thesis
      by (intro exI [of _ "t @ map MarkFinal [0..len s - 1]"]) (simp add: startSort_simps)
  qed
qed

subsection \<open>The array, the bars and the replayed copy\<close>

lemma shown_synced: "shown st (hs, hs) = apply_step st hs"
proof (cases st)
  case (Swap i j)
  show ?thesis
  proof (cases "valid_index hs i \<and> valid_index hs j")
    case True
    then have "nat i < length hs" "nat j < length hs" by (auto simp: valid_index_def)
    then have "hs[nat i := hs[nat i := hs ! nat j, nat j := hs ! nat i] ! nat i,
                  nat j := hs[nat i := hs ! nat j, nat j := hs ! nat i] ! nat j]
               = hs[nat i := hs ! nat j, nat j := hs ! nat i]"
      by (cases "nat i = nat j") (simp_all add: nth_list_update)
    with True Swap show ?thesis by (simp add: shown_def valid_index_def)
  next
    case False
    with Swap show ?thesis by (auto simp: shown_def)
  qed
next
  case (Overwrite k v)
  then show ?thesis by (auto simp: shown_def valid_index_def)
qed (simp_all add: shown_def)

lemma play_synced: "play t (hs, hs) = (replay t hs, replay t hs)"
  by (induction t arbitrary: hs) (simp_all add: shown_synced)

lemma frames_synced:
  "map fst (frames t (hs, hs)) = replays t hs" "map snd (frames t (hs, hs)) = replays t hs"
  by (induction t arbitrary: hs) (simp_all add: shown_synced)

lemma run_synced:
  "replay (trace (after (init xs) t)) xs = heights (after (init xs) t)"
  "bars (after (init xs) t) = heights (after (init xs) t)"
  "map fst (shots (after (init xs) t)) = replays (trace (after (init xs) t)) xs"
  "map snd (shots (after (init xs) t)) = replays (trace (after (init xs) t)) xs"
  by (simp_all add: bars_after shots_after play_synced frames_synced init_def)

subsection \<open>The marks of whole runs\<close>

lemma startSort_marks_once:
  assumes "algorithm \<in> {''bubble'', ''selection'', ''heap'', ''shell''}"
  shows "\<exists>r. startSort algorithm (init xs) = Some r \<and>
             length (marks (trace (final r))) = length xs \<and>
             distinct (marks (trace (final r))) \<and>
             set (marks (trace (final r))) = {0..<int (length xs)} \<and>
             settled (trace (final r))"
proof (cases "algorithm = ''heap'' \<and> xs = []")
  case True
  then have "startSort algorithm (init xs) = Some (Threw (init xs))"
    by (simp add: startSort_heap_empty)
  with True show ?thesis by simp
next
  case False
  then have "algorithm \<noteq> ''heap'' \<or> 0 < len (init xs)" by auto
  from startSort_marks [OF assms this] obtain t where
    r: "startSort algorithm (init xs) = Some (Ok (after (init xs) t))"
    and m: "mset (marks t) = mset [0..int (length xs) - 1]" and s: "settled t"
    by auto
  from m have "size (mset (marks t)) = size (mset [0..int (length xs) - 1])" by simp
  then have "length (marks t) = length xs" by simp
  have "distinct (marks t) = distinct [0..int (length xs) - 1]"
    by (rule mset_eq_imp_distinct_iff [OF m])
  then have "distinct (marks t)"
    by simp
  have "set (marks t) = set [0..int (length xs) - 1]"
    by (rule mset_eq_setD [OF m])
  moreover have "{0..int (length xs) - 1} = {0..<int (length xs)}"
    by auto
  ultimately have "set (marks t) = {0..<int (length xs)}"
    by simp
  moreover note \<open>length (marks t) = length xs\<close> \<open>distinct (marks t)\<close>
  ultimately show ?thesis using r s by simp
qed

lemma quickSort_marks:
  "\<exists>t. startSort ''quick'' (init xs) = Some (Ok (after (init xs) t)) \<and>
       set (marks t) \<subseteq> {0..<int (length xs)} \<and> distinct (marks t) \<and> settled t"
proof -
  from quickSortHelper_run [of 0 "len (init xs) - 1" "init xs"] obtain t where
    r: "quickSortHelper 0 (len (init xs) - 1) (init xs) = Ok (after (init xs) t)"
    and m: "set (marks t) \<subseteq> {0..len (init xs) - 1}" "distinct (marks t)" "settled t"
    by auto
  have "{0..int (length xs) - 1} = {0..<int (length xs)}" by auto
  with r m show ?thesis
    by (intro exI [of _ t]) (simp add: startSort_simps quickSort_def)
qed

lemma insertionSort_marks:
  "\<exists>t. startSort ''insertion'' (init xs) = Some (Ok (after (init xs) t)) \<and>
       set (marks t) \<subseteq> {0..<int (length xs)} \<and> length (marks t) = length xs - 1"
proof -
  from insertion_outer_run [of 1 "init xs"] obtain t where
    r: "insertion_outer 1 (init xs) = Ok (after (init xs) t)"
    and m: "length (marks t) = nat (len (init xs) - 1)" "set (marks t) \<subseteq> {0..<len (init xs)}"
    by auto
  have "nat (int (length xs) - 1) = length xs - 1" by simp
  with r m show ?thesis
    by (intro exI [of _ t]) (simp add: startSort_simps insertionSort_def)
qed

lemma mergeSort_marks:
  "\<exists>t. startSort ''merge'' (init xs) = Some (Ok (after (init xs) t)) \<and>
       set (marks t) \<subseteq> {0..<int (length xs)} \<and> marks t = merge_marks 0 (int (length xs) - 1)"
proof -
  from mergeSortHelper_run [of 0 "len (init xs) - 1" "init xs"] obtain t where
    r: "mergeSortHelper 0 (len (init xs) - 1) (init xs) = Ok (after (init xs) t)"
    and m: "marks t = merge_marks 0 (len (init xs) - 1)"
    by auto
  have "{0..int (length xs) - 1} = {0..<int (length xs)}" by auto
  with set_merge_marks [of 0 "int (length xs) - 1"] r m show ?thesis
    by (intro exI [of _ t]) (simp add: startSort_simps mergeSort_def)
qed

section \<open>Order on finite values\<close>

text \<open>
  For the proofs the values are ordered as the integers they hold, with \<open>NaN\<close> below
  all of them. On finite values this order is the one the relational operators of
  the source compute.
\<close>

instantiation jsnum :: linorder
begin

fun less_eq_jsnum :: "jsnum \<Rightarrow> jsnum \<Rightarrow> bool" where
  "less_eq_jsnum (Num a) (Num b) = (a \<le> b)"
| "less_eq_jsnum NaN _ = True"
| "less_eq_jsnum (Num a) NaN = False"

definition less_jsnum :: "jsnum \<Rightarrow> jsnum \<Rightarrow> bool" where
  "less_jsnum a b = (a \<le> b \<and> \<not> b \<le> a)"

instance
proof
  fix x y z :: jsnum
  show "(x < y) = (x \<le> y \<and> \<not> y \<le> x)" by (simp add: less_jsnum_def)
  show "x \<le> x" by (cases x) auto
  show "x \<le> y \<Longrightarrow> y \<le> z \<Longrightarrow> x \<le> z" by (cases x; cases y; cases z) auto
  show "x \<le> y \<Longrightarrow> y \<le> x \<Longrightarrow> x = y" by (cases x; cases y) auto
  show "x \<le> y \<or> y \<le> x" by (cases x; cases y) auto
qed

end

lemma js_ops_finite:
  "a \<noteq> NaN \<Longrightarrow> b \<noteq> NaN \<Longrightarrow> js_gt a b = (b < a)"
  "a \<noteq> NaN \<Longrightarrow> b \<noteq> NaN \<Longrightarrow> js_lt a b = (a < b)"
  "a \<noteq> NaN \<Longrightarrow> b \<noteq> NaN \<Longrightarrow> js_le a b = (a \<le> b)"
  by (cases a; cases b; auto simp: less_jsnum_def)+

lemma all_finite_nth: "all_finite xs \<Longrightarrow> 0 \<le> k \<Longrightarrow> k < int (length xs) \<Longrightarrow> xs ! nat k \<noteq> NaN"
  by (metis all_finite_def nat_less_iff nth_mem)

lemma sorted_wrt_js_le: "all_finite xs \<Longrightarrow> sorted_wrt js_le xs = sorted xs"
proof (induction xs)
  case Nil
  show ?case by simp
next
  case (Cons a xs)
  then have "a \<noteq> NaN" and fin: "\<forall>x \<in> set xs. x \<noteq> NaN"
    by (auto simp: all_finite_def)
  then have "(\<forall>x \<in> set xs. js_le a x) = (\<forall>x \<in> set xs. a \<le> x)"
    by (simp add: js_ops_finite)
  with Cons show ?case by (simp add: all_finite_def)
qed

lemma all_finite_mset: "mset ys = mset xs \<Longrightarrow> all_finite ys = all_finite xs"
  by (auto simp: all_finite_def dest: mset_eq_setD)

subsection \<open>Arrays indexed by integers\<close>

lemma nth_update_int [simp]:
  "0 \<le> k \<Longrightarrow> 0 \<le> p \<Longrightarrow> k < int (length xs) \<Longrightarrow>
   xs[nat k := v] ! nat p = (if p = k then v else xs ! nat p)"
  by (auto simp: eq_nat_nat_iff)

lemma sorted_int_iff:
  "sorted xs \<longleftrightarrow> (\<forall>p q. 0 \<le> p \<and> p \<le> q \<and> q < int (length xs) \<longrightarrow> xs ! nat p \<le> xs ! nat q)"
proof
  assume "sorted xs"
  then show "\<forall>p q. 0 \<le> p \<and> p \<le> q \<and> q < int (length xs) \<longrightarrow> xs ! nat p \<le> xs ! nat q"
    by (auto simp: sorted_iff_nth_mono)
next
  assume a: "\<forall>p q. 0 \<le> p \<and> p \<le> q \<and> q < int (length xs) \<longrightarrow> xs ! nat p \<le> xs ! nat q"
  show "sorted xs"
    unfolding sorted_iff_nth_mono
  proof (intro allI impI)
    fix i j assume "i \<le> j" "j < length xs"
    with a [rule_format, of "int i" "int j"] show "xs ! i \<le> xs ! j" by simp
  qed
qed

text \<open>What a step does to the array when its indices are in range.\<close>

lemma heights_after_Compare [simp]:
  "heights (after s (Compare i j # t)) = heights (after s t)"
  by simp

lemma heights_after_MarkFinal [simp]:
  "heights (after s (MarkFinal i # t)) = heights (after s t)"
  by simp

definition swapped :: "'a list \<Rightarrow> int \<Rightarrow> int \<Rightarrow> 'a list" where
  "swapped xs i j = xs[nat i := xs ! nat j, nat j := xs ! nat i]"

lemma replay_Swap:
  "0 \<le> i \<Longrightarrow> i < int (length xs) \<Longrightarrow> 0 \<le> j \<Longrightarrow> j < int (length xs) \<Longrightarrow>
   replay (Swap i j # t) xs = replay t (swapped xs i j)"
  by (simp add: valid_index_def swapped_def)

lemma replay_Overwrite:
  "0 \<le> i \<Longrightarrow> i < int (length xs) \<Longrightarrow> replay (Overwrite i v # t) xs = replay t (xs[nat i := v])"
  by (simp add: valid_index_def)

lemma length_swapped [simp]: "length (swapped xs i j) = length xs"
  by (simp add: swapped_def)

lemma nth_swapped:
  "0 \<le> i \<Longrightarrow> i < int (length xs) \<Longrightarrow> 0 \<le> j \<Longrightarrow> j < int (length xs) \<Longrightarrow> 0 \<le> p \<Longrightarrow>
   swapped xs i j ! nat p = (if p = j then xs ! nat i else if p = i then xs ! nat j else xs ! nat p)"
  by (simp add: swapped_def)

lemma mset_swapped:
  "0 \<le> i \<Longrightarrow> i < int (length xs) \<Longrightarrow> 0 \<le> j \<Longrightarrow> j < int (length xs) \<Longrightarrow>
   mset (swapped xs i j) = mset xs"
  by (simp add: swapped_def mset_swap)

lemma swapped_same [simp]: "swapped xs i i = xs"
  by (simp add: swapped_def)

section \<open>Each algorithm sorts\<close>

text \<open>
  The array is only ever changed by a swap or by an overwrite whose index is in range;
  \<open>sorted_from\<close> and the invariants below speak about positions as integers, as the
  source does.
\<close>

lemma apply_step_Swap [simp]:
  "0 \<le> i \<Longrightarrow> i < int (length xs) \<Longrightarrow> 0 \<le> j \<Longrightarrow> j < int (length xs) \<Longrightarrow>
   apply_step (Swap i j) xs = swapped xs i j"
  by (simp add: valid_index_def swapped_def)

lemma apply_step_Overwrite [simp]:
  "0 \<le> i \<Longrightarrow> i < int (length xs) \<Longrightarrow> apply_step (Overwrite i v) xs = xs[nat i := v]"
  by (simp add: valid_index_def)

declare apply_step.simps(2,3) [simp del]

lemma heights_after_Swap:
  "inb s i \<Longrightarrow> inb s j \<Longrightarrow> heights (after s [Swap i j]) = swapped (heights s) i j"
  by (simp add: inb_def len_def)

lemma heights_after_Overwrite:
  "inb s i \<Longrightarrow> heights (after s [Overwrite i v]) = (heights s)[nat i := v]"
  by (simp add: inb_def len_def)

lemma swapBars_mset:
  assumes "swapBars i j s = Ok s'"
  shows "mset (heights s') = mset (heights s)"
proof -
  from assms have b: "inb s i" "inb s j" and e: "s' = after s [Swap i j]"
    by (auto elim: swapBars_OkE)
  from b show ?thesis
    unfolding e heights_after_Swap [OF b] by (simp add: mset_swapped inb_def len_def)
qed

lemma markAsSorted_heights: "markAsSorted k s = Ok s' \<Longrightarrow> heights s' = heights s"
  by (auto elim!: markAsSorted_OkE)

lemma mark_all_heights: "mark_all n i s = Ok s' \<Longrightarrow> heights s' = heights s"
proof (induction n i s arbitrary: s' rule: mark_all.induct)
  case (1 n i s)
  from "1.prems" [unfolded mark_all.simps [of n i s]] "1.IH" show ?case
    by (fastforce split: if_splits elim!: bindR_OkE dest: markAsSorted_heights)
qed

subsection \<open>Bubble sort\<close>

text \<open>After \<open>i\<close> passes the last \<open>i\<close> positions hold their final values: each of them is
  at least as large as everything before it.\<close>

definition bubbled :: "jsnum list \<Rightarrow> int \<Rightarrow> bool" where
  "bubbled xs i =
     (\<forall>p q. 0 \<le> p \<and> p \<le> q \<and> int (length xs) - i \<le> q \<and> q < int (length xs)
        \<longrightarrow> xs ! nat p \<le> xs ! nat q)"

lemma bubble_body_heights:
  assumes "bubble_body j s = Ok s'" "0 \<le> j" "j + 1 < len s" "all_finite (heights s)"
  shows "heights s' = (if heights s ! nat (j + 1) < heights s ! nat j
                       then swapped (heights s) j (j + 1) else heights s)"
proof -
  have b: "inb s j" "inb s (j + 1)" using assms by (auto simp: inb_def)
  have "heights s ! nat j \<noteq> NaN" "heights s ! nat (j + 1) \<noteq> NaN"
    using assms all_finite_nth [of "heights s" j] all_finite_nth [of "heights s" "j + 1"]
    by (simp_all add: len_def)
  then show ?thesis
    using assms(1) bubble_body_eq [OF b] b
    by (auto simp: js_ops_finite inb_def len_def)
qed

lemma bubble_body_mset: "bubble_body j s = Ok s' \<Longrightarrow> mset (heights s') = mset (heights s)"
  by (auto simp: bubble_body_def split: if_splits elim!: prim_OkE dest!: swapBars_mset)

lemma bubble_inner_mset: "bubble_inner i j s = Ok s' \<Longrightarrow> mset (heights s') = mset (heights s)"
proof (induction i j s arbitrary: s' rule: bubble_inner.induct)
  case (1 i j s)
  from "1.prems" [unfolded bubble_inner.simps [of i j s]] "1.IH" show ?case
    by (fastforce split: if_splits elim!: bindR_OkE dest: bubble_body_mset)
qed

lemma bubble_outer_mset: "bubble_outer i s = Ok s' \<Longrightarrow> mset (heights s') = mset (heights s)"
proof (induction i s arbitrary: s' rule: bubble_outer.induct)
  case (1 i s)
  from "1.prems" [unfolded bubble_outer.simps [of i s]] "1.IH" show ?case
    by (fastforce split: if_splits elim!: bindR_OkE dest: bubble_inner_mset)
qed

lemma bubble_inner_sorts:
  "bubble_inner i j s = Ok s' \<Longrightarrow> 0 \<le> i \<Longrightarrow> 0 \<le> j \<Longrightarrow> j \<le> len s - i - 1 \<Longrightarrow>
   all_finite (heights s) \<Longrightarrow> bubbled (heights s) i \<Longrightarrow>
   (\<forall>p. 0 \<le> p \<and> p \<le> j \<longrightarrow> heights s ! nat p \<le> heights s ! nat j) \<Longrightarrow>
   bubbled (heights s') (i + 1)"
proof (induction i j s arbitrary: s' rule: bubble_inner.induct)
  case (1 i j s)
  let ?xs = "heights s"
  show ?case
  proof (cases "j < len s - i - 1")
    case True
    with "1.prems" obtain s1 where b: "bubble_body j s = Ok s1"
      and r: "bubble_inner i (j + 1) s1 = Ok s'"
      by (auto simp: bubble_inner_unfold elim!: bindR_OkE)
    have bd: "0 \<le> j" "j + 1 < int (length ?xs)" "j + 1 < int (length ?xs) - i"
      using True "1.prems" by (auto simp: len_def)
    have h1: "heights s1 = (if ?xs ! nat (j + 1) < ?xs ! nat j
                            then swapped ?xs j (j + 1) else ?xs)"
      using bubble_body_heights [OF b] "1.prems" True by simp
    have l1: "len s1 = len s" using b by (rule bubble_body_len)
    have f1: "all_finite (heights s1)"
      using all_finite_mset [OF bubble_body_mset [OF b]] "1.prems" by simp
    have i1: "bubbled (heights s1) i"
      using "1.prems"(6) bd "1.prems"(2)
      unfolding bubbled_def h1
      by (auto simp: nth_swapped)
    have m1: "\<forall>p. 0 \<le> p \<and> p \<le> j + 1 \<longrightarrow> heights s1 ! nat p \<le> heights s1 ! nat (j + 1)"
    proof (intro allI impI)
      fix p assume p: "0 \<le> p \<and> p \<le> j + 1"
      then have "p = j + 1 \<or> p \<le> j" by auto
      with "1.prems"(7) [rule_format, of p] p bd
      show "heights s1 ! nat p \<le> heights s1 ! nat (j + 1)"
        unfolding h1 by (auto simp: nth_swapped)
    qed
    show ?thesis
      using "1.IH" [OF True b r] "1.prems" True l1 f1 i1 m1 by simp
  next
    case False
    with "1.prems" have e: "s' = s" "j = len s - i - 1"
      by (auto simp: bubble_inner_unfold)
    show ?thesis
      unfolding e bubbled_def
    proof (intro allI impI)
      fix p q
      assume a: "0 \<le> p \<and> p \<le> q \<and> int (length ?xs) - (i + 1) \<le> q \<and> q < int (length ?xs)"
      show "?xs ! nat p \<le> ?xs ! nat q"
      proof (cases "q = j")
        case True
        with a "1.prems"(7) show ?thesis by simp
      next
        case False
        with a e have "int (length ?xs) - i \<le> q" by (simp add: len_def)
        with a "1.prems"(6) show ?thesis by (simp add: bubbled_def)
      qed
    qed
  qed
qed

lemma bubble_outer_sorts:
  "bubble_outer i s = Ok s' \<Longrightarrow> 0 \<le> i \<Longrightarrow> all_finite (heights s) \<Longrightarrow>
   bubbled (heights s) i \<Longrightarrow> sorted (heights s')"
proof (induction i s arbitrary: s' rule: bubble_outer.induct)
  case (1 i s)
  show ?case
  proof (cases "i < len s")
    case True
    with "1.prems" obtain s1 where b: "bubble_inner i 0 s = Ok s1"
      and r: "bubble_outer (i + 1) s1 = Ok s'"
      by (auto simp: bubble_outer_unfold elim!: bindR_OkE)
    have "bubbled (heights s1) (i + 1)"
      using bubble_inner_sorts [OF b] "1.prems" True by simp
    moreover have "all_finite (heights s1)"
      using all_finite_mset [OF bubble_inner_mset [OF b]] "1.prems" by simp
    ultimately show ?thesis
      using "1.IH" [OF True b r] "1.prems" by simp
  next
    case False
    with "1.prems" have "s' = s" by (simp add: bubble_outer_unfold)
    with "1.prems" False show ?thesis
      by (simp add: sorted_int_iff bubbled_def len_def)
  qed
qed

lemma bubbleSort_sorts:
  assumes "bubbleSort s = Ok s'" "all_finite (heights s)"
  shows "sorted (heights s') \<and> mset (heights s') = mset (heights s)"
proof -
  from assms(1) obtain s1 where b: "bubble_outer 0 s = Ok s1"
    and m: "mark_all (len s1) 0 s1 = Ok s'"
    by (auto simp: bubbleSort_def elim!: bindR_OkE)
  have "sorted (heights s1)"
    using bubble_outer_sorts [OF b] assms(2) by (simp add: bubbled_def)
  with mark_all_heights [OF m] bubble_outer_mset [OF b] show ?thesis by simp
qed

subsection \<open>Selection sort\<close>

text \<open>After \<open>i\<close> rounds the first \<open>i\<close> positions hold their final values: each of them
  is at most as large as everything after it.\<close>

definition selected :: "jsnum list \<Rightarrow> int \<Rightarrow> bool" where
  "selected xs i =
     (\<forall>p q. 0 \<le> p \<and> p \<le> q \<and> p < i \<and> q < int (length xs) \<longrightarrow> xs ! nat p \<le> xs ! nat q)"

lemma selection_inner_min:
  "selection_inner j m s = Ok (m', s') \<Longrightarrow> lo \<le> m \<Longrightarrow> m < j \<Longrightarrow> 0 \<le> lo \<Longrightarrow> m < len s \<Longrightarrow>
   all_finite (heights s) \<Longrightarrow>
   (\<forall>k. lo \<le> k \<and> k < j \<longrightarrow> heights s ! nat m \<le> heights s ! nat k) \<Longrightarrow>
   heights s' = heights s \<and> lo \<le> m' \<and> m' < len s \<and>
   (\<forall>k. lo \<le> k \<and> k < len s \<longrightarrow> heights s ! nat m' \<le> heights s ! nat k)"
proof (induction j m s arbitrary: m' s' rule: selection_inner.induct)
  case (1 j m s)
  let ?xs = "heights s"
  show ?case
  proof (cases "j < len s")
    case True
    then have b: "inb s j" "inb s m" using "1.prems" by (auto simp: inb_def)
    define m1 where "m1 = (if js_lt (?xs ! nat j) (?xs ! nat m) then j else m)"
    have body: "selection_body j m s = Ok (m1, after s [Compare j m])"
      using b by (simp add: selection_body_eq m1_def)
    with True "1.prems"(1) have r: "selection_inner (j + 1) m1 (after s [Compare j m]) = Ok (m', s')"
      by (simp add: selection_inner_unfold)
    have fin: "?xs ! nat j \<noteq> NaN" "?xs ! nat m \<noteq> NaN"
      using all_finite_nth [of ?xs j] all_finite_nth [of ?xs m] "1.prems" True
      by (simp_all add: len_def)
    have m1: "m1 = (if ?xs ! nat j < ?xs ! nat m then j else m)"
      using fin by (simp add: m1_def js_ops_finite)
    have "\<forall>k. lo \<le> k \<and> k < j + 1 \<longrightarrow> ?xs ! nat m1 \<le> ?xs ! nat k"
    proof (intro allI impI)
      fix k assume k: "lo \<le> k \<and> k < j + 1"
      then have "k = j \<or> k < j" by auto
      with "1.prems"(7) [rule_format, of k] k show "?xs ! nat m1 \<le> ?xs ! nat k"
        unfolding m1 by (cases "k = j") (auto 0 3 dest: order.strict_trans2 less_imp_le)
    qed
    moreover have "lo \<le> m1" "m1 < j + 1" "m1 < len s"
      using "1.prems" True by (auto simp: m1)
    ultimately show ?thesis
      using "1.IH" [OF True body refl r] "1.prems" by simp
  next
    case False
    with "1.prems" show ?thesis
      by (auto simp: selection_inner_unfold)
  qed
qed

lemma selection_step_heights:
  assumes "selection_step i s = Ok s'" "0 \<le> i" "i < len s" "all_finite (heights s)"
  shows "\<exists>m. i \<le> m \<and> m < len s \<and> heights s' = swapped (heights s) i m \<and>
            (\<forall>k. i \<le> k \<and> k < len s \<longrightarrow> heights s ! nat m \<le> heights s ! nat k)"
proof -
  from assms(1) obtain m s1 s2 where
    r: "selection_inner (i + 1) i s = Ok (m, s1)"
    and sw: "(if m \<noteq> i then swapBars i m s1 else Ok s1) = Ok s2"
    and mk: "markAsSorted i s2 = Ok s'"
    by (auto simp: selection_step_def elim!: bindR_OkE)
  have pre: "\<forall>k. i \<le> k \<and> k < i + 1 \<longrightarrow> heights s ! nat i \<le> heights s ! nat k"
  proof (intro allI impI)
    fix k assume "i \<le> k \<and> k < i + 1"
    then have "k = i" by simp
    then show "heights s ! nat i \<le> heights s ! nat k" by simp
  qed
  have "i < i + 1" by simp
  note selection_inner_min [OF r order_refl this assms(2,3,4) pre]
  then have
    m: "heights s1 = heights s" "i \<le> m" "m < len s"
      "\<forall>k. i \<le> k \<and> k < len s \<longrightarrow> heights s ! nat m \<le> heights s ! nat k"
    by blast+
  have "len s1 = len s" using m(1) by (simp add: len_def)
  then have "heights s2 = swapped (heights s) i m"
    using sw m assms by (auto simp: inb_def len_def split: if_splits elim!: swapBars_OkE)
  with markAsSorted_heights [OF mk] m show ?thesis by auto
qed

lemma selection_step_mset:
  assumes "selection_step i s = Ok s'" "0 \<le> i" "i < len s" "all_finite (heights s)"
  shows "mset (heights s') = mset (heights s)"
proof -
  from selection_step_heights [OF assms] obtain m where
    "i \<le> m" "m < len s" "heights s' = swapped (heights s) i m" by auto
  with assms show ?thesis by (simp add: mset_swapped len_def)
qed

lemma selection_outer_sorts:
  "selection_outer i s = Ok s' \<Longrightarrow> 0 \<le> i \<Longrightarrow> all_finite (heights s) \<Longrightarrow>
   selected (heights s) i \<Longrightarrow>
   sorted (heights s') \<and> mset (heights s') = mset (heights s)"
proof (induction i s arbitrary: s' rule: selection_outer.induct)
  case (1 i s)
  let ?xs = "heights s"
  show ?case
  proof (cases "i < len s")
    case True
    with "1.prems" obtain s1 where b: "selection_step i s = Ok s1"
      and r: "selection_outer (i + 1) s1 = Ok s'"
      by (auto simp: selection_outer_unfold elim!: bindR_OkE)
    from selection_step_heights [OF b] "1.prems" True obtain m where
      m: "i \<le> m" "m < len s" "heights s1 = swapped ?xs i m"
        "\<forall>k. i \<le> k \<and> k < len s \<longrightarrow> ?xs ! nat m \<le> ?xs ! nat k"
      by auto
    have ms: "mset (heights s1) = mset ?xs"
      using selection_step_mset [OF b] "1.prems" True by simp
    have f1: "all_finite (heights s1)"
      using all_finite_mset [OF ms] "1.prems" by simp
    have "selected (heights s1) (i + 1)"
      unfolding selected_def m(3)
    proof (intro allI impI)
      fix p q
      assume a: "0 \<le> p \<and> p \<le> q \<and> p < i + 1 \<and> q < int (length (swapped ?xs i m))"
      then have q: "q < len s" by (simp add: len_def)
      have nth: "\<And>k. 0 \<le> k \<Longrightarrow> swapped ?xs i m ! nat k =
          (if k = m then ?xs ! nat i else if k = i then ?xs ! nat m else ?xs ! nat k)"
        using m "1.prems" True by (simp add: nth_swapped len_def)
      show "swapped ?xs i m ! nat p \<le> swapped ?xs i m ! nat q"
      proof (cases "p = i")
        case True
        then show ?thesis using a q m nth by auto
      next
        case False
        with a have p: "p < i" by simp
        then have "?xs ! nat p \<le> ?xs ! nat q" "?xs ! nat p \<le> ?xs ! nat i" "?xs ! nat p \<le> ?xs ! nat m"
          using "1.prems"(4) a q m True by (auto simp: selected_def len_def)
        then show ?thesis using a p m nth by auto
      qed
    qed
    with "1.IH" [OF True b r] "1.prems" f1 ms show ?thesis by simp
  next
    case False
    with "1.prems" have "s' = s" by (simp add: selection_outer_unfold)
    with "1.prems" False show ?thesis
      by (auto simp: sorted_int_iff selected_def len_def)
  qed
qed

lemma selectionSort_sorts:
  assumes "selectionSort s = Ok s'" "all_finite (heights s)"
  shows "sorted (heights s') \<and> mset (heights s') = mset (heights s)"
  using selection_outer_sorts [of 0 s s'] assms by (simp add: selectionSort_def selected_def)

subsection \<open>Insertion sort and shell sort\<close>

text \<open>
  Both shift values into a hole. With the held value written into the hole, the array
  is a permutation of the one the round started with; \<open>hole_inv xs h i c\<close> says that
  the positions \<open>0..i\<close> other than the hole \<open>h\<close> are in order and that everything after
  the hole is larger than the held value \<open>c\<close>.
\<close>

definition sorted_upto :: "jsnum list \<Rightarrow> int \<Rightarrow> bool" where
  "sorted_upto xs i = (\<forall>p q. 0 \<le> p \<and> p \<le> q \<and> q < i \<longrightarrow> xs ! nat p \<le> xs ! nat q)"

definition hole_inv :: "jsnum list \<Rightarrow> int \<Rightarrow> int \<Rightarrow> jsnum \<Rightarrow> bool" where
  "hole_inv xs h i c =
     ((\<forall>p q. 0 \<le> p \<and> p \<le> q \<and> q \<le> i \<and> p \<noteq> h \<and> q \<noteq> h \<longrightarrow> xs ! nat p \<le> xs ! nat q) \<and>
      (\<forall>q. h < q \<and> q \<le> i \<longrightarrow> c < xs ! nat q))"

lemma sorted_upto_length: "sorted_upto xs (int (length xs)) = sorted xs"
  by (simp add: sorted_upto_def sorted_int_iff)

lemma sorted_upto_mono: "sorted_upto xs i \<Longrightarrow> k \<le> i \<Longrightarrow> sorted_upto xs k"
  by (auto simp: sorted_upto_def)

lemma mset_shift:
  assumes "p < length xs" "h < length xs" "p \<noteq> h"
  shows "mset (xs[h := xs ! p, p := c]) = mset (xs[h := c])"
proof -
  let ?ys = "xs[h := c]"
  have "xs[h := xs ! p, p := c] = ?ys[p := ?ys ! h, h := ?ys ! p]"
    using assms by (simp add: list_update_swap [of h p])
  moreover have "mset (?ys[p := ?ys ! h, h := ?ys ! p]) = mset ?ys"
    using assms by (intro mset_swap) simp_all
  ultimately show ?thesis by simp
qed

lemma mset_shift_int:
  assumes "0 \<le> p" "p < int (length xs)" "0 \<le> h" "h < int (length xs)" "p \<noteq> h"
  shows "mset (xs[nat h := xs ! nat p, nat p := c]) = mset (xs[nat h := c])"
  using assms by (intro mset_shift) (auto simp: eq_nat_nat_iff)

lemma all_finite_update:
  "all_finite xs \<Longrightarrow> v \<noteq> NaN \<Longrightarrow> all_finite (xs[k := v])"
  using set_update_subset_insert [of xs k v] by (auto simp: all_finite_def)

lemma hole_inv_start: "sorted_upto xs i \<Longrightarrow> hole_inv xs i i c"
  by (auto simp: hole_inv_def sorted_upto_def)

lemma hole_inv_step:
  assumes "hole_inv xs h i c" "0 < h" "h \<le> i" "i < int (length xs)" "c < xs ! nat (h - 1)"
  shows "hole_inv (xs[nat h := xs ! nat (h - 1)]) (h - 1) i c"
  unfolding hole_inv_def
proof (intro conjI allI impI)
  fix p q
  assume a: "0 \<le> p \<and> p \<le> q \<and> q \<le> i \<and> p \<noteq> h - 1 \<and> q \<noteq> h - 1"
  have o: "\<And>u v. 0 \<le> u \<Longrightarrow> u \<le> v \<Longrightarrow> v \<le> i \<Longrightarrow> u \<noteq> h \<Longrightarrow> v \<noteq> h \<Longrightarrow> xs ! nat u \<le> xs ! nat v"
    using assms(1) by (simp add: hole_inv_def)
  have "xs ! nat (h - 1) \<le> xs ! nat q" if "h < q"
    using o [of "h - 1" q] that a assms by simp
  moreover have "xs ! nat p \<le> xs ! nat (h - 1)" if "p < h - 1"
    using o [of p "h - 1"] that a assms by simp
  moreover have "xs ! nat p \<le> xs ! nat q" if "p \<noteq> h" "q \<noteq> h"
    using o [of p q] that a by simp
  ultimately show "xs[nat h := xs ! nat (h - 1)] ! nat p \<le> xs[nat h := xs ! nat (h - 1)] ! nat q"
    using a assms by (cases "p = h"; cases "q = h") auto
next
  fix q
  assume a: "h - 1 < q \<and> q \<le> i"
  have "c < xs ! nat q" if "h < q"
    using assms(1) that a by (simp add: hole_inv_def)
  then show "c < xs[nat h := xs ! nat (h - 1)] ! nat q"
    using a assms by (cases "q = h") auto
qed

lemma hole_inv_done:
  assumes "hole_inv xs h i c" "0 \<le> h" "h \<le> i" "i < int (length xs)"
    "h = 0 \<or> xs ! nat (h - 1) \<le> c"
  shows "sorted_upto (xs[nat h := c]) (i + 1)"
  unfolding sorted_upto_def
proof (intro allI impI)
  fix p q
  assume a: "0 \<le> p \<and> p \<le> q \<and> q < i + 1"
  have o: "\<And>u v. 0 \<le> u \<Longrightarrow> u \<le> v \<Longrightarrow> v \<le> i \<Longrightarrow> u \<noteq> h \<Longrightarrow> v \<noteq> h \<Longrightarrow> xs ! nat u \<le> xs ! nat v"
    using assms(1) by (simp add: hole_inv_def)
  have "c \<le> xs ! nat q" if "h < q"
    using assms(1) that a by (auto simp: hole_inv_def intro: less_imp_le)
  moreover have "xs ! nat p \<le> c" if "p < h"
  proof -
    from that assms have "xs ! nat (h - 1) \<le> c" using a by auto
    moreover have "xs ! nat p \<le> xs ! nat (h - 1)"
      using o [of p "h - 1"] that a assms by (cases "p = h - 1") auto
    ultimately show ?thesis by simp
  qed
  moreover have "xs ! nat p \<le> xs ! nat q" if "p \<noteq> h" "q \<noteq> h"
    using o [of p q] that a by simp
  ultimately show "xs[nat h := c] ! nat p \<le> xs[nat h := c] ! nat q"
    using a assms by (cases "p = h"; cases "q = h") auto
qed

lemma insertion_while_inserts:
  "insertion_while i c j s = Ok (j', s') \<Longrightarrow> - 1 \<le> j \<Longrightarrow> j < i \<Longrightarrow> i < len s \<Longrightarrow>
   all_finite (heights s) \<Longrightarrow> c \<noteq> NaN \<Longrightarrow> hole_inv (heights s) (j + 1) i c \<Longrightarrow>
   - 1 \<le> j' \<and> j' < i \<and> length (heights s') = length (heights s) \<and> all_finite (heights s') \<and>
   mset ((heights s')[nat (j' + 1) := c]) = mset ((heights s)[nat (j + 1) := c]) \<and>
   sorted_upto ((heights s')[nat (j' + 1) := c]) (i + 1)"
proof (induction "nat (j + 1)" arbitrary: j s rule: less_induct)
  case less
  let ?xs = "heights s"
  have n: "i < int (length ?xs)" using less.prems by (simp add: len_def)
  show ?case
  proof (cases "0 \<le> j")
    case True
    then have b: "inb s j" "inb s (j + 1)" using less.prems by (auto simp: inb_def)
    have fin: "?xs ! nat j \<noteq> NaN"
      using all_finite_nth [of ?xs j] True less.prems n by simp
    show ?thesis
    proof (cases "js_gt (?xs ! nat j) c")
      case gt: True
      define s1 where "s1 = after s [Compare j i, Overwrite (j + 1) (?xs ! nat j)]"
      have h1: "heights s1 = ?xs[nat (j + 1) := ?xs ! nat j]"
        using True less.prems n by (simp add: s1_def)
      have r: "insertion_while i c (j - 1) s1 = Ok (j', s')"
        using insertion_while_unfold(1) [OF True b gt, of i] less.prems(1) by (simp add: s1_def)
      have lt: "c < ?xs ! nat j" using gt fin less.prems by (simp add: js_ops_finite)
      have "hole_inv (heights s1) (j - 1 + 1) i c"
        using hole_inv_step [of ?xs "j + 1" i c] less.prems True n lt by (simp add: h1)
      moreover have "all_finite (heights s1)"
        unfolding h1 using less.prems fin by (intro all_finite_update)
      moreover have "nat (j - 1 + 1) < nat (j + 1)" using True by simp
      moreover have "mset ((heights s1)[nat (j - 1 + 1) := c]) = mset (?xs[nat (j + 1) := c])"
        using mset_shift_int [of j ?xs "j + 1" c] True less.prems n by (simp add: h1)
      ultimately show ?thesis
        using less.hyps [of "j - 1" s1, OF _ r] less.prems True h1 by (simp add: s1_def)
    next
      case False
      then have e: "j' = j" "s' = after s [Compare j i]"
        using insertion_while_unfold(2) [OF True b(1) False, of i] less.prems(1) by auto
      have "?xs ! nat j \<le> c" using False fin less.prems by (simp add: js_ops_finite not_less)
      then have "sorted_upto (?xs[nat (j + 1) := c]) (i + 1)"
        using hole_inv_done [of ?xs "j + 1" i c] less.prems True n by simp
      then show ?thesis using less.prems by (simp add: e)
    qed
  next
    case False
    then have e: "j' = j" "s' = s"
      using insertion_while_unfold(3) [OF False, of i c s] less.prems(1) by auto
    from False less.prems have "j = - 1" by simp
    then have "sorted_upto (?xs[nat (j + 1) := c]) (i + 1)"
      using hole_inv_done [of ?xs "j + 1" i c] less.prems n by simp
    then show ?thesis using less.prems by (simp add: e)
  qed
qed

lemma insertion_step_inserts:
  assumes "insertion_step i s = Ok s'" "0 \<le> i" "i < len s" "all_finite (heights s)"
    "sorted_upto (heights s) i"
  shows "sorted_upto (heights s') (i + 1) \<and> mset (heights s') = mset (heights s) \<and>
         all_finite (heights s')"
proof -
  let ?xs = "heights s"
  let ?c = "?xs ! nat i"
  have b: "inb s i" using assms by (simp add: inb_def)
  have n: "i < int (length ?xs)" using assms by (simp add: len_def)
  from assms(1) b obtain j s1 s2 where
    w: "insertion_while i ?c (i - 1) s = Ok (j, s1)"
    and o: "overwrite (j + 1) ?c s1 = Ok s2" and m: "markAsSorted (j + 1) s2 = Ok s'"
    by (auto simp: insertion_step_def elim!: bindR_OkE)
  have c: "?c \<noteq> NaN" using all_finite_nth [of ?xs i] assms n by simp
  have "hole_inv ?xs (i - 1 + 1) i ?c" using hole_inv_start [OF assms(5)] by simp
  from insertion_while_inserts [OF w _ _ assms(3,4) c this] assms have
    r: "- 1 \<le> j" "j < i" "length (heights s1) = length ?xs" "all_finite (heights s1)"
      "mset ((heights s1)[nat (j + 1) := ?c]) = mset (?xs[nat i := ?c])"
      "sorted_upto ((heights s1)[nat (j + 1) := ?c]) (i + 1)"
    by simp_all
  have "heights s2 = (heights s1)[nat (j + 1) := ?c]"
    using o r n by (auto simp: inb_def len_def elim!: overwrite_OkE)
  with markAsSorted_heights [OF m] have "heights s' = (heights s1)[nat (j + 1) := ?c]" by simp
  with r c show ?thesis by (simp add: all_finite_update)
qed

lemma insertion_outer_sorts:
  "insertion_outer i s = Ok s' \<Longrightarrow> 0 \<le> i \<Longrightarrow> all_finite (heights s) \<Longrightarrow>
   sorted_upto (heights s) i \<Longrightarrow>
   sorted (heights s') \<and> mset (heights s') = mset (heights s)"
proof (induction i s arbitrary: s' rule: insertion_outer.induct)
  case (1 i s)
  show ?case
  proof (cases "i < len s")
    case True
    with "1.prems" obtain s1 where b: "insertion_step i s = Ok s1"
      and r: "insertion_outer (i + 1) s1 = Ok s'"
      by (auto simp: insertion_outer_unfold elim!: bindR_OkE)
    from insertion_step_inserts [OF b] "1.prems" True have
      "sorted_upto (heights s1) (i + 1)" "mset (heights s1) = mset (heights s)"
      "all_finite (heights s1)"
      by simp_all
    with "1.IH" [OF True b r] "1.prems" show ?thesis by simp
  next
    case False
    with "1.prems" have "s' = s" by (simp add: insertion_outer_unfold)
    moreover have "sorted_upto (heights s) (int (length (heights s)))"
      using "1.prems" False by (auto simp: len_def intro: sorted_upto_mono [of _ i])
    ultimately show ?thesis by (simp add: sorted_upto_length)
  qed
qed

lemma insertionSort_sorts:
  assumes "insertionSort s = Ok s'" "all_finite (heights s)"
  shows "sorted (heights s') \<and> mset (heights s') = mset (heights s)"
proof -
  have "sorted_upto (heights s) 1"
    by (auto simp: sorted_upto_def)
  with insertion_outer_sorts [of 1 s s'] assms show ?thesis
    by (simp add: insertionSort_def)
qed

text \<open>Shell sort: every pass permutes the array, and the pass with gap \<open>1\<close>, which is
  the last one, is an insertion sort.\<close>

lemma shell_inner_inserts:
  "shell_inner i gap temp j s = Some (Ok (j', s')) \<Longrightarrow> 0 < gap \<Longrightarrow> 0 \<le> j \<Longrightarrow> j \<le> i \<Longrightarrow>
   i < len s \<Longrightarrow> all_finite (heights s) \<Longrightarrow> temp \<noteq> NaN \<Longrightarrow>
   (gap = 1 \<longrightarrow> hole_inv (heights s) j i temp) \<Longrightarrow>
   0 \<le> j' \<and> j' \<le> i \<and> length (heights s') = length (heights s) \<and> all_finite (heights s') \<and>
   mset ((heights s')[nat j' := temp]) = mset ((heights s)[nat j := temp]) \<and>
   (gap = 1 \<longrightarrow> sorted_upto ((heights s')[nat j' := temp]) (i + 1))"
proof (induction "nat j" arbitrary: j s rule: less_induct)
  case less
  let ?xs = "heights s"
  have n: "i < int (length ?xs)" using less.prems by (simp add: len_def)
  show ?case
  proof (cases "gap \<le> j")
    case True
    then have b: "inb s (j - gap)" "inb s j" using less.prems by (auto simp: inb_def)
    have fin: "?xs ! nat (j - gap) \<noteq> NaN"
      using all_finite_nth [of ?xs "j - gap"] True less.prems n by simp
    show ?thesis
    proof (cases "js_gt (?xs ! nat (j - gap)) temp")
      case gt: True
      define s1 where "s1 = after s [Compare (j - gap) i, Overwrite j (?xs ! nat (j - gap))]"
      have h1: "heights s1 = ?xs[nat j := ?xs ! nat (j - gap)]"
        using True less.prems n by (simp add: s1_def)
      have r: "shell_inner i gap temp (j - gap) s1 = Some (Ok (j', s'))"
        using shell_inner_unfold(1) [OF True b gt, of i] less.prems(1) by (simp add: s1_def)
      have lt: "temp < ?xs ! nat (j - gap)" using gt fin less.prems by (simp add: js_ops_finite)
      have "gap = 1 \<longrightarrow> hole_inv (heights s1) (j - gap) i temp"
        using hole_inv_step [of ?xs j i temp] less.prems True n lt by (auto simp: h1)
      moreover have "all_finite (heights s1)"
        unfolding h1 using less.prems fin by (intro all_finite_update)
      moreover have "nat (j - gap) < nat j" using True less.prems by simp
      moreover have "mset ((heights s1)[nat (j - gap) := temp]) = mset (?xs[nat j := temp])"
        using mset_shift_int [of "j - gap" ?xs j temp] True less.prems n by (simp add: h1)
      ultimately show ?thesis
        using less.hyps [of "j - gap" s1, OF _ r] less.prems True h1 by (simp add: s1_def)
    next
      case False
      then have e: "j' = j" "s' = after s [Compare (j - gap) i]"
        using shell_inner_unfold(2) [OF True b(1) False, of i] less.prems(1) by auto
      have "?xs ! nat (j - gap) \<le> temp"
        using False fin less.prems by (simp add: js_ops_finite not_less)
      then have "gap = 1 \<longrightarrow> sorted_upto (?xs[nat j := temp]) (i + 1)"
        using hole_inv_done [of ?xs j i temp] less.prems True n by auto
      then show ?thesis using less.prems by (simp add: e)
    qed
  next
    case False
    then have e: "j' = j" "s' = s"
      using shell_inner_unfold(3) [OF False, of i temp s] less.prems(1) by auto
    have "gap = 1 \<longrightarrow> sorted_upto (?xs[nat j := temp]) (i + 1)"
      using hole_inv_done [of ?xs j i temp] less.prems False n by auto
    then show ?thesis using less.prems by (simp add: e)
  qed
qed

lemma shell_step_inserts:
  assumes "shell_step gap i s = Some (Ok s')" "0 < gap" "0 \<le> i" "i < len s"
    "all_finite (heights s)" "gap = 1 \<longrightarrow> sorted_upto (heights s) i"
  shows "mset (heights s') = mset (heights s) \<and> all_finite (heights s') \<and>
         len s' = len s \<and> (gap = 1 \<longrightarrow> sorted_upto (heights s') (i + 1))"
proof -
  let ?xs = "heights s"
  let ?c = "?xs ! nat i"
  have b: "inb s i" using assms by (simp add: inb_def)
  have n: "i < int (length ?xs)" using assms by (simp add: len_def)
  from assms(1) b obtain j s1 where
    w: "shell_inner i gap ?c i s = Some (Ok (j, s1))"
    and o: "overwrite j ?c s1 = Ok s'"
    by (auto simp: shell_step_def elim!: bindO_OkE)
  have c: "?c \<noteq> NaN" using all_finite_nth [of ?xs i] assms n by simp
  have "gap = 1 \<longrightarrow> hole_inv ?xs i i ?c" using hole_inv_start assms(6) by simp
  from shell_inner_inserts [OF w assms(2,3) order_refl assms(4,5) c this] have
    r: "0 \<le> j" "j \<le> i" "length (heights s1) = length ?xs" "all_finite (heights s1)"
      "mset ((heights s1)[nat j := ?c]) = mset (?xs[nat i := ?c])"
      "gap = 1 \<longrightarrow> sorted_upto ((heights s1)[nat j := ?c]) (i + 1)"
    by simp_all
  have "heights s' = (heights s1)[nat j := ?c]"
    using o r n by (auto simp: inb_def len_def elim!: overwrite_OkE)
  with r c show ?thesis by (simp add: all_finite_update len_def)
qed

lemma shell_pass_sorts:
  "shell_pass n gap i s = Some (Ok s') \<Longrightarrow> 0 < gap \<Longrightarrow> 0 \<le> i \<Longrightarrow> n = len s \<Longrightarrow>
   all_finite (heights s) \<Longrightarrow> (gap = 1 \<longrightarrow> sorted_upto (heights s) i) \<Longrightarrow>
   mset (heights s') = mset (heights s) \<and> all_finite (heights s') \<and> len s' = len s \<and>
   (gap = 1 \<longrightarrow> sorted (heights s'))"
proof (induction n gap i s arbitrary: s' rule: shell_pass.induct)
  case (1 n gap i s)
  show ?case
  proof (cases "i < n")
    case True
    with "1.prems" obtain s1 where b: "shell_step gap i s = Some (Ok s1)"
      and r: "shell_pass n gap (i + 1) s1 = Some (Ok s')"
      by (auto simp: shell_pass_unfold elim!: bindO_OkE)
    from shell_step_inserts [OF b] "1.prems" True have
      "mset (heights s1) = mset (heights s)" "all_finite (heights s1)" "len s1 = len s"
      "gap = 1 \<longrightarrow> sorted_upto (heights s1) (i + 1)"
      by simp_all
    with "1.IH" [OF True b r] "1.prems" show ?thesis by simp
  next
    case False
    with "1.prems" have e: "s' = s" by (simp add: shell_pass_unfold)
    have "gap = 1 \<longrightarrow> sorted_upto (heights s) (int (length (heights s)))"
      using "1.prems" False by (auto simp: len_def intro: sorted_upto_mono [of _ i])
    with "1.prems" show ?thesis by (simp add: e sorted_upto_length)
  qed
qed

lemma shell_gaps_sorts:
  "shell_gaps n gap s = Some (Ok s') \<Longrightarrow> n = len s \<Longrightarrow> all_finite (heights s) \<Longrightarrow>
   0 < gap \<or> sorted (heights s) \<Longrightarrow>
   mset (heights s') = mset (heights s) \<and> sorted (heights s')"
proof (induction n gap s arbitrary: s' rule: shell_gaps.induct)
  case (1 n gap s)
  show ?case
  proof (cases "0 < gap")
    case True
    with "1.prems" obtain s1 where b: "shell_pass n gap gap s = Some (Ok s1)"
      and r: "shell_gaps n (gap div 2) s1 = Some (Ok s')"
      by (auto simp: shell_gaps_unfold elim!: bindO_OkE)
    have "gap = 1 \<longrightarrow> sorted_upto (heights s) gap"
      by (auto simp: sorted_upto_def)
    from shell_pass_sorts [OF b True _ "1.prems"(2,3) this] True have
      p: "mset (heights s1) = mset (heights s)" "all_finite (heights s1)" "len s1 = len s"
      "gap = 1 \<longrightarrow> sorted (heights s1)"
      by simp_all
    have "0 < gap div 2 \<or> sorted (heights s1)"
    proof (cases "gap = 1")
      case True
      with p show ?thesis by simp
    next
      case False
      with \<open>0 < gap\<close> have "2 \<le> gap" by simp
      then have "0 < gap div 2" by simp
      then show ?thesis by simp
    qed
    with "1.IH" [OF True b r] "1.prems" p show ?thesis by simp
  next
    case False
    with "1.prems" show ?thesis by (simp add: shell_gaps_unfold)
  qed
qed

lemma shellSort_sorts:
  assumes "shellSort s = Some (Ok s')" "all_finite (heights s)"
  shows "sorted (heights s') \<and> mset (heights s') = mset (heights s)"
proof -
  from assms(1) obtain s1 where g: "shell_gaps (len s) (len s div 2) s = Some (Ok s1)"
    and m: "mark_all (len s) 0 s1 = Ok s'"
    by (auto simp: shellSort_def Let_def elim!: bindO_OkE)
  have "0 < len s div 2 \<or> sorted (heights s)"
  proof (cases "2 \<le> len s")
    case True
    then have "0 < len s div 2" by simp
    then show ?thesis by simp
  next
    case False
    then have "length (heights s) \<le> 1" by (simp add: len_def)
    then have "sorted (heights s)"
      by (cases "heights s") (auto simp: Suc_le_eq)
    then show ?thesis by simp
  qed
  from shell_gaps_sorts [OF g refl assms(2) this] mark_all_heights [OF m]
  show ?thesis by simp
qed

subsection \<open>Quick sort\<close>

definition sorted_between :: "jsnum list \<Rightarrow> int \<Rightarrow> int \<Rightarrow> bool" where
  "sorted_between xs lo hi = (\<forall>p q. lo \<le> p \<and> p \<le> q \<and> q \<le> hi \<longrightarrow> xs ! nat p \<le> xs ! nat q)"

lemma partition_loop_splits:
  "partition_loop high pivot i j s = Ok (i', s') \<Longrightarrow> 0 \<le> low \<Longrightarrow> low - 1 \<le> i \<Longrightarrow> i < j \<Longrightarrow>
   j \<le> high \<Longrightarrow> high < len s \<Longrightarrow> all_finite (heights s) \<Longrightarrow> pivot \<noteq> NaN \<Longrightarrow>
   (\<forall>k. low \<le> k \<and> k \<le> i \<longrightarrow> heights s ! nat k \<le> pivot) \<Longrightarrow>
   (\<forall>k. i < k \<and> k < j \<longrightarrow> pivot < heights s ! nat k) \<Longrightarrow>
   (\<forall>k. low \<le> k \<and> k \<le> i' \<longrightarrow> heights s' ! nat k \<le> pivot) \<and>
   (\<forall>k. i' < k \<and> k < high \<longrightarrow> pivot < heights s' ! nat k)"
proof (induction high pivot i j s arbitrary: i' s' rule: partition_loop.induct)
  case (1 high pivot i j s)
  let ?xs = "heights s"
  show ?case
  proof (cases "j < high")
    case True
    have n: "j < int (length ?xs)" "0 \<le> j" "0 \<le> i + 1" "i + 1 < int (length ?xs)"
      using True "1.prems" by (auto simp: len_def)
    have b: "inb s j" using n by (simp add: inb_def len_def)
    have fin: "?xs ! nat j \<noteq> NaN" using all_finite_nth [of ?xs j] "1.prems" n by simp
    define le where "le = (?xs ! nat j \<le> pivot)"
    define i1 where "i1 = (if le then i + 1 else i)"
    define t1 where "t1 = (if le then Compare j high # (if i + 1 \<noteq> j then [Swap (i + 1) j] else [])
        else [Compare j high])"
    have body: "partition_body high pivot i j s = Ok (i1, after s t1)"
      using partition_body_eq [OF b n(3) "1.prems"(4), of high pivot] fin "1.prems"
      by (simp add: i1_def t1_def le_def js_ops_finite)
    with True "1.prems"(1) have r: "partition_loop high pivot i1 (j + 1) (after s t1) = Ok (i', s')"
      by (simp add: partition_loop_unfold)
    have h1: "replay t1 ?xs = (if le then swapped ?xs (i + 1) j else ?xs)"
      using n by (auto simp: t1_def)
    have nth: "\<And>k. 0 \<le> k \<Longrightarrow> swapped ?xs (i + 1) j ! nat k =
        (if k = j then ?xs ! nat (i + 1) else if k = i + 1 then ?xs ! nat j else ?xs ! nat k)"
      using n by (simp add: nth_swapped)
    have f1: "all_finite (replay t1 ?xs)"
      unfolding h1 using "1.prems" n all_finite_mset [OF mset_swapped [of "i + 1" ?xs j]] by simp
    have lo: "\<forall>k. low \<le> k \<and> k \<le> i1 \<longrightarrow> replay t1 ?xs ! nat k \<le> pivot"
    proof (intro allI impI)
      fix k assume k: "low \<le> k \<and> k \<le> i1"
      show "replay t1 ?xs ! nat k \<le> pivot"
      proof (cases le)
        case True
        then show ?thesis
          using k "1.prems"(2,4) "1.prems"(9) [rule_format, of k]
          by (cases "k = i + 1") (auto simp: h1 i1_def nth le_def)
      next
        case False
        then show ?thesis using k "1.prems"(9) by (simp add: h1 i1_def)
      qed
    qed
    have hi: "\<forall>k. i1 < k \<and> k < j + 1 \<longrightarrow> pivot < replay t1 ?xs ! nat k"
    proof (intro allI impI)
      fix k assume k: "i1 < k \<and> k < j + 1"
      show "pivot < replay t1 ?xs ! nat k"
      proof (cases le)
        case True
        have "pivot < ?xs ! nat (i + 1)" if "i + 1 < j"
          using "1.prems"(10) that by simp
        then show ?thesis
          using True k "1.prems"(2,3,4) "1.prems"(10) [rule_format, of k]
          by (cases "k = j") (auto simp: h1 i1_def nth)
      next
        case False
        then have "pivot < ?xs ! nat j" by (simp add: le_def)
        then show ?thesis
          using False k "1.prems"(10) [rule_format, of k]
          by (cases "k = j") (auto simp: h1 i1_def)
      qed
    qed
    have "low - 1 \<le> i1" "i1 < j + 1" using "1.prems" by (auto simp: i1_def)
    then show ?thesis
      using "1.IH" [OF True body refl r "1.prems"(2)] True "1.prems"(6,8) f1 lo hi by simp
  next
    case False
    with "1.prems" have "i' = i" "s' = s" "j = high"
      by (auto simp: partition_loop_unfold)
    with "1.prems" show ?thesis by simp
  qed
qed

lemma partition_splits:
  assumes "partition low high s = Ok (p, s')" "0 \<le> low" "low \<le> high" "high < len s"
    "all_finite (heights s)"
  shows "(\<forall>k. low \<le> k \<and> k < p \<longrightarrow> heights s' ! nat k \<le> heights s' ! nat p) \<and>
         (\<forall>k. p < k \<and> k \<le> high \<longrightarrow> heights s' ! nat p \<le> heights s' ! nat k)"
proof -
  let ?xs = "heights s"
  let ?pv = "?xs ! nat high"
  have n: "high < int (length ?xs)" "0 \<le> high" using assms by (auto simp: len_def)
  have pv: "?pv \<noteq> NaN" using all_finite_nth [of ?xs high] assms n by simp
  from partition_loop_run [of "low - 1" low high s ?pv] assms obtain i t where
    r: "partition_loop high ?pv (low - 1) low s = Ok (i, after s t)"
    and t: "low - 1 \<le> i" "i + low \<le> low - 1 + high" "confined {low..high - 1} t"
    by auto
  have i: "0 \<le> i + 1" "i + 1 \<le> high" using t assms by auto
  let ?ys = "replay t ?xs"
  have e: "s' = after s (t @ [Swap (i + 1) high, MarkFinal (i + 1)])" "p = i + 1"
    using assms(1) r i n by (auto simp: partition_def swapBars_Ok markAsSorted_Ok inb_def len_def)
  have "(\<forall>k. low \<le> k \<and> k \<le> i \<longrightarrow> ?ys ! nat k \<le> ?pv) \<and>
        (\<forall>k. i < k \<and> k < high \<longrightarrow> ?pv < ?ys ! nat k)"
    using partition_loop_splits [OF r assms(2) _ _ assms(3,4,5) pv] by simp
  then have lo: "\<And>k. low \<le> k \<Longrightarrow> k \<le> i \<Longrightarrow> ?ys ! nat k \<le> ?pv"
    and hi: "\<And>k. i < k \<Longrightarrow> k < high \<Longrightarrow> ?pv \<le> ?ys ! nat k"
    by (auto intro: less_imp_le)
  have yh: "?ys ! nat high = ?pv"
    using replay_frame [OF t(3), of high ?xs] n by simp
  have h': "heights s' = swapped ?ys (i + 1) high"
    unfolding e using i n by simp
  have nth: "\<And>k. 0 \<le> k \<Longrightarrow> swapped ?ys (i + 1) high ! nat k =
      (if k = high then ?ys ! nat (i + 1) else if k = i + 1 then ?ys ! nat high else ?ys ! nat k)"
    using n i by (simp add: nth_swapped)
  show ?thesis
  proof (intro conjI allI impI)
    fix k assume "low \<le> k \<and> k < p"
    then show "heights s' ! nat k \<le> heights s' ! nat p"
      using lo [of k] assms(2) i yh by (auto simp: h' e(2) nth)
  next
    fix k assume k: "p < k \<and> k \<le> high"
    then show "heights s' ! nat p \<le> heights s' ! nat k"
      using hi [of k] hi [of "i + 1"] assms(2) i yh by (cases "k = high") (auto simp: h' e(2) nth)
  qed
qed

lemma quickSortHelper_sorts:
  "quickSortHelper low high s = Ok s' \<Longrightarrow> 0 \<le> low \<Longrightarrow> high < len s \<Longrightarrow>
   all_finite (heights s) \<Longrightarrow> sorted_between (heights s') low high"
proof (induction low high s arbitrary: s' rule: quickSortHelper.induct)
  case (1 low high s)
  show ?case
  proof (cases "low < high")
    case True
    from partition_run [of low high s] True "1.prems" obtain p t1 where
      b: "partition low high s = Ok (p, after s t1)"
      and p: "low \<le> p" "p \<le> high" and t1: "permuting t1"
      by auto
    from quickSortHelper_run [of low "p - 1" "after s t1"] "1.prems" p obtain t2 where
      l: "quickSortHelper low (p - 1) (after s t1) = Ok (after s (t1 @ t2))"
      and t2: "confined {low..p - 1} t2" "permuting t2"
      by auto
    from quickSortHelper_run [of "p + 1" high "after s (t1 @ t2)"] "1.prems" p obtain t3 where
      r: "quickSortHelper (p + 1) high (after s (t1 @ t2)) = Ok (after s (t1 @ t2 @ t3))"
      and t3: "confined {p + 1..high} t3" "permuting t3"
      by auto
    have e: "s' = after s (t1 @ t2 @ t3)"
      using "1.prems"(1) b l r True by (simp add: quickSortHelper_unfold)
    let ?xs = "heights s"
    let ?a = "replay t1 ?xs"
    let ?b = "replay t2 ?a"
    let ?c = "replay t3 ?b"
    have n: "high < int (length ?xs)" using "1.prems" by (simp add: len_def)
    have fa: "all_finite ?a" using all_finite_mset [OF mset_replay [OF t1], of ?xs] "1.prems" by simp
    have fb: "all_finite ?b" using all_finite_mset [OF mset_replay [OF t2(2)], of ?a] fa by simp
    from partition_splits [OF b] "1.prems" True have
      pa: "\<And>k. low \<le> k \<Longrightarrow> k < p \<Longrightarrow> ?a ! nat k \<le> ?a ! nat p"
      "\<And>k. p < k \<Longrightarrow> k \<le> high \<Longrightarrow> ?a ! nat p \<le> ?a ! nat k"
      by simp_all
    have sl: "sorted_between ?b low (p - 1)"
      using "1.IH"(1) [OF True b refl l] "1.prems" p fa by simp
    have sr: "sorted_between ?c (p + 1) high"
      using "1.IH"(2) [OF True b refl l r] "1.prems" p fb by simp
    have bl: "\<forall>k \<in> {low..p - 1}. 0 \<le> k \<and> k < int (length ?a) \<longrightarrow> ?b ! nat k \<le> ?a ! nat p"
      using pa(1) by (intro replay_pred [OF t2(2,1)]) auto
    have bp: "?b ! nat k = ?a ! nat k" if "p \<le> k" for k
      using replay_frame [OF t2(1), of k ?a] that "1.prems" p by simp
    have cr: "\<forall>k \<in> {p + 1..high}. 0 \<le> k \<and> k < int (length ?b) \<longrightarrow> ?a ! nat p \<le> ?c ! nat k"
      using pa(2) bp by (intro replay_pred [OF t3(2,1)]) auto
    have cp: "?c ! nat k = ?b ! nat k" if "0 \<le> k" "k \<le> p" for k
      using replay_frame [OF t3(1), of k ?b] that by simp
    have "?c ! nat u \<le> ?c ! nat v" if "low \<le> u" "u \<le> v" "v \<le> high" for u v
    proof -
      have u0: "0 \<le> u" "0 \<le> v" "v < int (length ?xs)" using that "1.prems" n by auto
      show ?thesis
      proof (cases "v < p")
        case True
        with sl that u0 show ?thesis by (simp add: cp sorted_between_def)
      next
        case vp: False
        show ?thesis
        proof (cases "p < u")
          case True
          with sr that show ?thesis by (simp add: sorted_between_def)
        next
          case up: False
          have lft: "?c ! nat u \<le> ?a ! nat p"
          proof (cases "u = p")
            case True
            then show ?thesis using u0 by (simp add: cp bp)
          next
            case False
            with up have "u < p" by simp
            with bl that u0 "1.prems" show ?thesis by (simp add: cp)
          qed
          have rgt: "?a ! nat p \<le> ?c ! nat v"
          proof (cases "v = p")
            case True
            then show ?thesis using u0 by (simp add: cp bp)
          next
            case False
            with vp have "p < v" by simp
            with cr that u0 "1.prems" show ?thesis by simp
          qed
          from lft rgt show ?thesis by (rule order_trans)
        qed
      qed
    qed
    then show ?thesis by (simp add: e sorted_between_def)
  next
    case False
    with "1.prems" have "s' = s" by (simp add: quickSortHelper_unfold)
    with False show ?thesis
      by (auto simp: sorted_between_def) (metis order_refl dual_order.antisym order_trans not_le)
  qed
qed

lemma quickSort_sorts:
  assumes "quickSort s = Ok s'" "all_finite (heights s)"
  shows "sorted (heights s') \<and> mset (heights s') = mset (heights s)"
proof -
  from quickSortHelper_run [of 0 "len s - 1" s] obtain t where
    t: "quickSortHelper 0 (len s - 1) s = Ok (after s t)" "permuting t"
    by auto
  with assms have e: "s' = after s t" by (simp add: quickSort_def)
  have "sorted_between (heights s') 0 (len s - 1)"
    using quickSortHelper_sorts [of 0 "len s - 1" s s'] assms by (simp add: quickSort_def)
  then have "sorted (heights s')"
    by (simp add: sorted_int_iff sorted_between_def e len_def)
  with t(2) e show ?thesis by (simp add: mset_replay)
qed

subsection \<open>Merge sort\<close>

text \<open>
  \<open>merged\<close> is the list that the three loops of \<^verbatim>\<open>merge\<close> write, as a function of the
  two temporary arrays. \<^verbatim>\<open>mergeSortHelper\<close> replaces the range it is called on by the
  sorted list of the values of that range.
\<close>

fun merged :: "jsnum list \<Rightarrow> jsnum list \<Rightarrow> jsnum list" where
  "merged [] bs = bs"
| "merged as [] = as"
| "merged (a # as) (b # bs) = (if a \<le> b then a # merged as (b # bs) else b # merged (a # as) bs)"

lemma merged_Nil2 [simp]: "merged as [] = as"
  by (cases as) auto

lemma mset_merged: "mset (merged as bs) = mset as + mset bs"
  by (induction as bs rule: merged.induct) auto

lemma set_merged: "set (merged as bs) = set as \<union> set bs"
  using mset_merged [of as bs] by (metis set_mset_mset set_mset_union)

lemma sorted_merged: "sorted as \<Longrightarrow> sorted bs \<Longrightarrow> sorted (merged as bs)"
  by (induction as bs rule: merged.induct) (auto simp: set_merged)

lemma merged_sort: "merged (sort as) (sort bs) = sort (as @ bs)"
  by (rule properties_for_sort [symmetric]) (simp_all add: mset_merged sorted_merged)

lemma merged_drop:
  assumes "i < length la" "j < length ra"
  shows "merged (drop i la) (drop j ra) =
    (if la ! i \<le> ra ! j then la ! i # merged (drop (Suc i) la) (drop j ra)
     else ra ! j # merged (drop i la) (drop (Suc j) ra))"
proof -
  have "drop i la = la ! i # drop (Suc i) la" "drop j ra = ra ! j # drop (Suc j) ra"
    using assms by (simp_all add: Cons_nth_drop_Suc)
  then show ?thesis by (metis merged.simps(3))
qed

lemma place_heights:
  assumes "place k v s = Ok s'" "heights s = P @ q # R" "int (length P) = k"
  shows "heights s' = P @ v # R"
proof -
  from assms(1) have "inb s k" "s' = after s [Overwrite k v, MarkFinal k]"
    by (auto elim: place_OkE)
  moreover have "nat k = length P" using assms(3) by auto
  ultimately show ?thesis using assms(2,3) by (simp add: inb_def len_def)
qed

lemma merge_rest_copies:
  "merge_rest buf i k s = Ok (k', s') \<Longrightarrow> heights s = P @ Q @ R \<Longrightarrow> int (length P) = k \<Longrightarrow>
   0 \<le> i \<Longrightarrow> int (length Q) = int (length buf) - i \<Longrightarrow>
   heights s' = P @ drop (nat i) buf @ R"
proof (induction buf i k s arbitrary: P Q rule: merge_rest.induct)
  case (1 buf i k s)
  show ?case
  proof (cases "i < int (length buf)")
    case True
    with "1.prems" obtain q Q' where Q: "Q = q # Q'" by (cases Q) auto
    from True "1.prems" obtain s1 where
      a: "aget s buf i = Ok (buf ! nat i)"
      and p: "place k (buf ! nat i) s = Ok s1"
      and r: "merge_rest buf (i + 1) (k + 1) s1 = Ok (k', s')"
      by (auto simp: merge_rest_unfold elim!: bindR_OkE aget_OkE)
    have h1: "heights s1 = (P @ [buf ! nat i]) @ Q' @ R"
      using place_heights [OF p, of P q "Q' @ R"] "1.prems" Q by simp
    have "heights s' = (P @ [buf ! nat i]) @ drop (nat (i + 1)) buf @ R"
      using "1.IH" [OF True a p r h1] "1.prems" Q by simp
    moreover have "drop (nat i) buf = buf ! nat i # drop (nat (i + 1)) buf"
      using True "1.prems" by (simp add: Cons_nth_drop_Suc nat_add_distrib)
    ultimately show ?thesis by simp
  next
    case False
    with "1.prems"(5) have "length Q = 0" by linarith
    with False "1.prems" show ?thesis by (simp add: merge_rest_unfold)
  qed
qed

lemma merge_both_merges:
  "merge_both left mid la ra i j k s = Ok (i', j', k', s') \<Longrightarrow> heights s = P @ Q @ R \<Longrightarrow>
   int (length P) = k \<Longrightarrow> 0 \<le> i \<Longrightarrow> 0 \<le> j \<Longrightarrow> i \<le> int (length la) \<Longrightarrow> j \<le> int (length ra) \<Longrightarrow>
   int (length Q) = (int (length la) - i) + (int (length ra) - j) \<Longrightarrow>
   all_finite la \<Longrightarrow> all_finite ra \<Longrightarrow>
   \<exists>ms Q'. heights s' = P @ ms @ Q' @ R \<and>
     ms @ merged (drop (nat i') la) (drop (nat j') ra) = merged (drop (nat i) la) (drop (nat j) ra) \<and>
     int (length Q') = (int (length la) - i') + (int (length ra) - j') \<and>
     k' = k + int (length ms) \<and> (i' = int (length la) \<or> j' = int (length ra)) \<and>
     0 \<le> i' \<and> i' \<le> int (length la) \<and> 0 \<le> j' \<and> j' \<le> int (length ra)"
proof (induction left mid la ra i j k s arbitrary: P Q rule: merge_both.induct)
  case (1 left mid la ra i j k s)
  show ?case
  proof (cases "i < int (length la) \<and> j < int (length ra)")
    case True
    with "1.prems" obtain q Q1 where Q: "Q = q # Q1" by (cases Q) auto
    have kb: "inb s k" using "1.prems" Q by (simp add: inb_def len_def)
    have fin: "la ! nat i \<noteq> NaN" "ra ! nat j \<noteq> NaN"
      using all_finite_nth [of la i] all_finite_nth [of ra j] True "1.prems" by simp_all
    define c where "c = (la ! nat i \<le> ra ! nat j)"
    define i1 where "i1 = (if c then i + 1 else i)"
    define j1 where "j1 = (if c then j else j + 1)"
    define a where "a = (if c then la ! nat i else ra ! nat j)"
    define s1 where "s1 = after s [Compare (left + i) (mid + 1 + j), Overwrite k a, MarkFinal k]"
    have body: "merge_body left mid la ra i j k s = Ok (i1, j1, s1)"
      using merge_body_eq [OF kb "1.prems"(4) _ "1.prems"(5), of la ra left mid] True fin
      by (simp add: c_def i1_def j1_def a_def s1_def js_ops_finite)
    with True "1.prems"(1) have
      r: "merge_both left mid la ra i1 j1 (k + 1) s1 = Ok (i', j', k', s')"
      by (simp add: merge_both_unfold)
    have "nat k = length P" using "1.prems" by auto
    then have h1: "heights s1 = (P @ [a]) @ Q1 @ R"
      using "1.prems" Q by (simp add: s1_def)
    have ij: "0 \<le> i1" "0 \<le> j1" "i1 \<le> int (length la)" "j1 \<le> int (length ra)"
      "int (length Q1) = (int (length la) - i1) + (int (length ra) - j1)"
      using True "1.prems" Q by (auto simp: i1_def j1_def)
    from "1.IH" [OF True body refl refl r h1 _ ij "1.prems"(9,10)] "1.prems" obtain ms Q' where
      ms: "heights s' = (P @ [a]) @ ms @ Q' @ R"
        "ms @ merged (drop (nat i') la) (drop (nat j') ra) = merged (drop (nat i1) la) (drop (nat j1) ra)"
        "int (length Q') = (int (length la) - i') + (int (length ra) - j')"
        "k' = k + 1 + int (length ms)" "i' = int (length la) \<or> j' = int (length ra)"
        "0 \<le> i'" "i' \<le> int (length la)" "0 \<le> j'" "j' \<le> int (length ra)"
      by auto
    have "merged (drop (nat i) la) (drop (nat j) ra) = a # merged (drop (nat i1) la) (drop (nat j1) ra)"
      using merged_drop [of "nat i" la "nat j" ra] True "1.prems"
      by (auto simp: a_def i1_def j1_def c_def nat_add_distrib)
    with ms show ?thesis
      by (intro exI [of _ "a # ms"] exI [of _ Q']) simp
  next
    case False
    with "1.prems" show ?thesis
      by (intro exI [of _ "[]"] exI [of _ Q]) (auto simp: merge_both_unfold)
  qed
qed

lemma slice_middle:
  assumes "int (length A) = a" "int (length B) = b - a"
  shows "slice (A @ B @ C) a b = B"
proof -
  have "nat a = length A" "nat (b - a) = length B" "0 \<le> a" "a \<le> b" "b \<le> int (length (A @ B @ C))"
    using assms by auto
  then show ?thesis by (simp add: slice_eq)
qed

lemma merge_merges:
  assumes "merge left mid right s = Ok s'" "heights s = A @ B1 @ B2 @ D"
    "int (length A) = left" "int (length B1) = mid + 1 - left" "int (length B2) = right - mid"
    "all_finite (heights s)"
  shows "heights s' = A @ merged B1 B2 @ D"
proof -
  have la: "slice (heights s) left (mid + 1) = B1"
    using slice_middle [of A left B1 "mid + 1" "B2 @ D"] assms by simp
  have ra: "slice (heights s) (mid + 1) (right + 1) = B2"
    using slice_middle [of "A @ B1" "mid + 1" B2 "right + 1" D] assms by simp
  have fin: "all_finite B1" "all_finite B2"
    using assms(2,6) by (auto simp: all_finite_def)
  from assms(1) obtain i j k s1 k1 s2 k2 where
    b: "merge_both left mid B1 B2 0 0 left s = Ok (i, j, k, s1)"
    and l: "merge_rest B1 i k s1 = Ok (k1, s2)"
    and r: "merge_rest B2 j k1 s2 = Ok (k2, s')"
    by (auto simp: merge_def Let_def la ra elim!: bindR_OkE)
  from merge_both_merges [OF b, of A "B1 @ B2" D] assms fin obtain ms Q' where
    ms: "heights s1 = A @ ms @ Q' @ D"
      "ms @ merged (drop (nat i) B1) (drop (nat j) B2) = merged B1 B2"
      "int (length Q') = (int (length B1) - i) + (int (length B2) - j)"
      "k = left + int (length ms)" "i = int (length B1) \<or> j = int (length B2)"
      "0 \<le> i" "i \<le> int (length B1)" "0 \<le> j" "j \<le> int (length B2)"
    by auto
  obtain Q1 Q2 where Q': "Q' = Q1 @ Q2" "int (length Q1) = int (length B1) - i"
    "int (length Q2) = int (length B2) - j"
  proof
    show "Q' = take (nat (int (length B1) - i)) Q' @ drop (nat (int (length B1) - i)) Q'" by simp
    show "int (length (take (nat (int (length B1) - i)) Q')) = int (length B1) - i"
      using ms by auto
    show "int (length (drop (nat (int (length B1) - i)) Q')) = int (length B2) - j"
      using ms by auto
  qed
  have h2: "heights s2 = (A @ ms) @ drop (nat i) B1 @ Q2 @ D"
    using merge_rest_copies [OF l, of "A @ ms" Q1 "Q2 @ D"] ms Q' assms(3) by simp
  have k1: "k1 = k + (int (length B1) - i)"
    using merge_rest_run [of i k B1 s1] l ms Q' assms(3) by (auto simp: len_def)
  have "heights s' = (A @ ms @ drop (nat i) B1) @ drop (nat j) B2 @ D"
    using merge_rest_copies [OF r, of "A @ ms @ drop (nat i) B1" Q2 D] h2 ms Q' k1 assms(3)
    by simp
  moreover have "merged (drop (nat i) B1) (drop (nat j) B2) = drop (nat i) B1 @ drop (nat j) B2"
    using ms(5) by auto
  ultimately show ?thesis using ms(2) by (metis append.assoc)
qed

lemma mergeSortHelper_sorts:
  "mergeSortHelper left right s = Ok s' \<Longrightarrow> heights s = A @ B @ D \<Longrightarrow> int (length A) = left \<Longrightarrow>
   int (length B) = right + 1 - left \<Longrightarrow> all_finite (heights s) \<Longrightarrow>
   heights s' = A @ sort B @ D"
proof (induction left right s arbitrary: s' A B D rule: mergeSortHelper.induct)
  case (1 left right s)
  show ?case
  proof (cases "left < right")
    case True
    define mid where "mid = (left + right) div 2"
    have mid: "left \<le> mid" "mid < right" using True by (auto simp: mid_def)
    from "1.prems"(1) True obtain s1 s2 where
      l: "mergeSortHelper left mid s = Ok s1"
      and r: "mergeSortHelper (mid + 1) right s1 = Ok s2"
      and m: "merge left mid right s2 = Ok s'"
      by (auto simp: mergeSortHelper_unfold mid_def elim!: bindR_OkE)
    define B1 where "B1 = take (nat (mid + 1 - left)) B"
    define B2 where "B2 = drop (nat (mid + 1 - left)) B"
    have B: "B = B1 @ B2" "int (length B1) = mid + 1 - left" "int (length B2) = right - mid"
      using mid "1.prems" by (auto simp: B1_def B2_def)
    have h1: "heights s1 = A @ sort B1 @ B2 @ D"
      using "1.IH"(1) [OF True mid_def l, of A B1 "B2 @ D"] "1.prems" B by simp
    have f1: "all_finite (heights s1)"
      using "1.prems" B by (auto simp: h1 all_finite_def)
    have h2: "heights s2 = (A @ sort B1) @ sort B2 @ D"
      using "1.IH"(2) [OF True mid_def l r, of "A @ sort B1" B2 D] "1.prems" B h1 f1 by simp
    have f2: "all_finite (heights s2)"
      using "1.prems" B by (auto simp: h2 all_finite_def)
    have "heights s' = A @ merged (sort B1) (sort B2) @ D"
      using merge_merges [OF m, of A "sort B1" "sort B2" D] h2 "1.prems" B f2 by simp
    then show ?thesis by (simp add: merged_sort B)
  next
    case False
    with "1.prems" have "s' = s" "length B \<le> 1"
      by (auto simp: mergeSortHelper_unfold)
    moreover from this have "sort B = B"
      by (cases B) (auto simp: Suc_le_eq)
    ultimately show ?thesis using "1.prems" by simp
  qed
qed

lemma mergeSort_sorts:
  assumes "mergeSort s = Ok s'" "all_finite (heights s)"
  shows "sorted (heights s') \<and> mset (heights s') = mset (heights s)"
proof -
  have "heights s' = [] @ sort (heights s) @ []"
    using assms by (intro mergeSortHelper_sorts [of 0 "len s - 1" s]) (simp_all add: mergeSort_def len_def)
  then show ?thesis by simp
qed

subsection \<open>Heap sort\<close>

text \<open>
  \<open>heap_at xs n k\<close>: inside the heap of size \<open>n\<close>, the node \<open>k\<close> is at least as large as
  its children. \<open>heap_except xs lo n i\<close> is the state in which \<^verbatim>\<open>heapify\<close> is called on
  \<open>i\<close>: every node from \<open>lo\<close> on other than \<open>i\<close> is in order, and the children of \<open>i\<close> do
  not exceed the parent of \<open>i\<close>.
\<close>

definition heap_at :: "jsnum list \<Rightarrow> int \<Rightarrow> int \<Rightarrow> bool" where
  "heap_at xs n k =
     ((2 * k + 1 < n \<longrightarrow> xs ! nat (2 * k + 1) \<le> xs ! nat k) \<and>
      (2 * k + 2 < n \<longrightarrow> xs ! nat (2 * k + 2) \<le> xs ! nat k))"

definition heap_from :: "jsnum list \<Rightarrow> int \<Rightarrow> int \<Rightarrow> bool" where
  "heap_from xs lo n = (\<forall>k. lo \<le> k \<longrightarrow> heap_at xs n k)"

definition heap_except :: "jsnum list \<Rightarrow> int \<Rightarrow> int \<Rightarrow> int \<Rightarrow> bool" where
  "heap_except xs lo n i =
     ((\<forall>k. lo \<le> k \<and> k \<noteq> i \<longrightarrow> heap_at xs n k) \<and>
      (\<forall>q c. lo \<le> q \<and> (i = 2 * q + 1 \<or> i = 2 * q + 2) \<and> (c = 2 * i + 1 \<or> c = 2 * i + 2) \<and> c < n
         \<longrightarrow> xs ! nat c \<le> xs ! nat q))"

definition largest :: "jsnum list \<Rightarrow> int \<Rightarrow> int \<Rightarrow> int" where
  "largest xs n i =
     (let l1 = (if 2 * i + 1 < n \<and> xs ! nat i < xs ! nat (2 * i + 1) then 2 * i + 1 else i)
      in if 2 * i + 2 < n \<and> xs ! nat l1 < xs ! nat (2 * i + 2) then 2 * i + 2 else l1)"

lemma largest_cases: "largest xs n i = i \<or> largest xs n i = 2 * i + 1 \<or> largest xs n i = 2 * i + 2"
  by (auto simp: largest_def Let_def)

lemma largest_bound: "largest xs n i \<noteq> i \<Longrightarrow> largest xs n i < n"
  by (auto simp: largest_def Let_def split: if_splits)

lemma largest_ge:
  "xs ! nat i \<le> xs ! nat (largest xs n i)"
  "2 * i + 1 < n \<Longrightarrow> xs ! nat (2 * i + 1) \<le> xs ! nat (largest xs n i)"
  "2 * i + 2 < n \<Longrightarrow> xs ! nat (2 * i + 2) \<le> xs ! nat (largest xs n i)"
  by (auto simp: largest_def Let_def not_less intro: less_imp_le order_trans dest: less_imp_le)

lemma replay_confined_empty: "confined {} t \<Longrightarrow> replay t xs = xs"
proof (induction t arbitrary: xs)
  case Nil
  show ?case by simp
next
  case (Cons st t)
  then have "apply_step st xs = xs" by (cases st) auto
  with Cons show ?case by simp
qed

lemma heapify_unfold:
  assumes "0 \<le> i" "n \<le> len s" "all_finite (heights s)"
  shows "\<exists>t. confined {} t \<and>
    heapify n i s =
      (if largest (heights s) n i \<noteq> i
       then heapify n (largest (heights s) n i) (after s (t @ [Swap i (largest (heights s) n i)]))
       else Ok (after s t))"
proof -
  let ?xs = "heights s"
  define l1 where "l1 = (if 2 * i + 1 < n \<and> js_gt (?xs ! nat (2 * i + 1)) (?xs ! nat i)
      then 2 * i + 1 else i)"
  define t1 where "t1 = (if 2 * i + 1 < n then [Compare (2 * i + 1) i] else [])"
  define l2 where "l2 = (if 2 * i + 2 < n \<and> js_gt (?xs ! nat (2 * i + 2)) (?xs ! nat l1)
      then 2 * i + 2 else l1)"
  define t2 where "t2 = (if 2 * i + 2 < n then [Compare (2 * i + 2) l1] else [])"
  have l1: "l1 = i \<or> (l1 = 2 * i + 1 \<and> 2 * i + 1 < n)"
    by (auto simp: l1_def)
  have l2: "l2 = l1 \<or> (l2 = 2 * i + 2 \<and> 2 * i + 2 < n)"
    by (auto simp: l2_def)
  have p1: "pick_larger n (2 * i + 1) i s = Ok (l1, after s t1)"
    using assms by (subst pick_larger_eq) (auto simp: inb_def l1_def t1_def)
  have p2: "pick_larger n (2 * i + 2) l1 (after s t1) = Ok (l2, after s (t1 @ t2))"
    using assms l1 by (subst pick_larger_eq) (auto simp: inb_def l2_def t2_def t1_def)
  have fin: "\<And>k. 0 \<le> k \<Longrightarrow> k < n \<Longrightarrow> ?xs ! nat k \<noteq> NaN"
    using all_finite_nth [of ?xs] assms by (simp add: len_def)
  have e1: "l1 = (if 2 * i + 1 < n \<and> ?xs ! nat i < ?xs ! nat (2 * i + 1) then 2 * i + 1 else i)"
    using fin [of i] fin [of "2 * i + 1"] assms(1) by (auto simp: l1_def js_ops_finite)
  have "l2 = (if 2 * i + 2 < n \<and> ?xs ! nat l1 < ?xs ! nat (2 * i + 2) then 2 * i + 2 else l1)"
    using fin [of l1] fin [of "2 * i + 2"] assms(1) l1 by (auto simp: l2_def js_ops_finite)
  with e1 have e2: "l2 = largest ?xs n i"
    by (simp add: largest_def Let_def)
  have c: "confined {} (t1 @ t2)" by (auto simp: t1_def t2_def)
  show ?thesis
  proof (cases "l2 \<noteq> i")
    case True
    have b: "inb s i" "inb s l2"
      using l1 l2 True assms by (auto simp: inb_def)
    then have sw: "heapify_swap i l2 (after s (t1 @ t2)) = Ok (after s (t1 @ t2 @ [Swap i l2]))"
      by (simp add: heapify_swap_eq)
    have "heapify n i s = heapify n l2 (after s ((t1 @ t2) @ [Swap i l2]))"
      using True by (subst heapify.simps) (simp add: p1 p2 sw)
    with c True e2 show ?thesis by (intro exI [of _ "t1 @ t2"]) simp
  next
    case False
    then have "heapify n i s = Ok (after s (t1 @ t2))"
      by (subst heapify.simps) (simp add: p1 p2)
    with c False e2 show ?thesis by (intro exI [of _ "t1 @ t2"]) simp
  qed
qed

lemma sift_done:
  assumes "heap_except xs lo n i" "largest xs n i = i"
  shows "heap_from xs lo n"
  unfolding heap_from_def
proof (intro allI impI)
  fix k assume k: "lo \<le> k"
  show "heap_at xs n k"
  proof (cases "k = i")
    case True
    with largest_ge(2,3) [of i n xs] assms(2) show ?thesis by (simp add: heap_at_def)
  next
    case False
    with assms(1) k show ?thesis by (simp add: heap_except_def)
  qed
qed

lemma sift_step:
  assumes h: "heap_except xs lo n i" and l: "largest xs n i = l" "l \<noteq> i"
    and b: "0 \<le> lo" "lo \<le> i" "n \<le> int (length xs)"
  shows "heap_except (swapped xs i l) lo n l"
proof -
  let ?ys = "swapped xs i l"
  have lc: "l = 2 * i + 1 \<or> l = 2 * i + 2" using largest_cases [of xs n i] l by auto
  have ln: "l < n" using largest_bound [of xs n i] l by auto
  have i0: "0 \<le> i" "i < l" "i < int (length xs)" "0 \<le> l" "l < int (length xs)"
    using b lc ln by auto
  have ge: "xs ! nat i \<le> xs ! nat l"
    "\<And>c. (c = 2 * i + 1 \<or> c = 2 * i + 2) \<Longrightarrow> c < n \<Longrightarrow> xs ! nat c \<le> xs ! nat l"
    using largest_ge [where xs = xs and i = i and n = n] l by auto
  have nth: "\<And>k. 0 \<le> k \<Longrightarrow> ?ys ! nat k =
      (if k = l then xs ! nat i else if k = i then xs ! nat l else xs ! nat k)"
    using i0 by (simp add: nth_swapped)
  have old: "\<And>k. lo \<le> k \<Longrightarrow> k \<noteq> i \<Longrightarrow> heap_at xs n k"
    using h by (simp add: heap_except_def)
  have gp: "\<And>q c. lo \<le> q \<Longrightarrow> i = 2 * q + 1 \<or> i = 2 * q + 2 \<Longrightarrow> c = 2 * i + 1 \<or> c = 2 * i + 2 \<Longrightarrow>
      c < n \<Longrightarrow> xs ! nat c \<le> xs ! nat q"
    using h unfolding heap_except_def by blast
  have child: "?ys ! nat c \<le> ?ys ! nat k"
    if k: "lo \<le> k" "k \<noteq> l" and c: "c = 2 * k + 1 \<or> c = 2 * k + 2" "c < n" for k c
  proof (cases "k = i")
    case True
    have "?ys ! nat k = xs ! nat l" using True i0 by (simp add: nth)
    moreover have "?ys ! nat c = (if c = l then xs ! nat i else xs ! nat c)"
      using c True i0 by (auto simp: nth)
    ultimately show ?thesis using ge c True by auto
  next
    case False
    have k0: "0 \<le> k" "0 \<le> c" "k < c" using k b c by auto
    have cl: "c \<noteq> l" using c lc False by presburger
    have yk: "?ys ! nat k = xs ! nat k" using k False k0 by (simp add: nth)
    show ?thesis
    proof (cases "c = i")
      case True
      then have "?ys ! nat c = xs ! nat l" using i0 by (simp add: nth)
      moreover have "xs ! nat l \<le> xs ! nat k"
        using gp [of k l] k c True lc ln by auto
      ultimately show ?thesis using yk by simp
    next
      case ci: False
      then have "?ys ! nat c = xs ! nat c" using cl k0 by (simp add: nth)
      moreover have "xs ! nat c \<le> xs ! nat k"
        using old [OF k(1) False] c by (auto simp: heap_at_def)
      ultimately show ?thesis using yk by simp
    qed
  qed
  show ?thesis
    unfolding heap_except_def
  proof (intro conjI allI impI)
    fix k assume "lo \<le> k \<and> k \<noteq> l"
    then show "heap_at ?ys n k"
      using child [of k "2 * k + 1"] child [of k "2 * k + 2"] by (simp add: heap_at_def)
  next
    fix q c
    assume a: "lo \<le> q \<and> (l = 2 * q + 1 \<or> l = 2 * q + 2) \<and> (c = 2 * l + 1 \<or> c = 2 * l + 2) \<and> c < n"
    then have q: "q = i" using lc by presburger
    have c: "0 \<le> c" "c \<noteq> l" "c \<noteq> i" using a i0 by auto
    have "heap_at xs n l" using old [of l] i0 b l by simp
    then have "xs ! nat c \<le> xs ! nat l" using a by (auto simp: heap_at_def)
    then show "?ys ! nat c \<le> ?ys ! nat q" using c q i0 by (simp add: nth)
  qed
qed

lemma heapify_sifts:
  "heapify n i s = Ok s' \<Longrightarrow> 0 \<le> lo \<Longrightarrow> lo \<le> i \<Longrightarrow> n \<le> len s \<Longrightarrow> all_finite (heights s) \<Longrightarrow>
   heap_except (heights s) lo n i \<Longrightarrow> heap_from (heights s') lo n"
proof (induction "nat (n - i)" arbitrary: i s rule: less_induct)
  case less
  let ?xs = "heights s"
  let ?l = "largest ?xs n i"
  from heapify_unfold [of i n s] less.prems obtain t where
    t: "confined {} t"
    and u: "heapify n i s =
      (if ?l \<noteq> i then heapify n ?l (after s (t @ [Swap i ?l])) else Ok (after s t))"
    by auto
  show ?case
  proof (cases "?l = i")
    case True
    with u less.prems(1) have "s' = after s t" by simp
    then have "heights s' = ?xs" using t by (simp add: replay_confined_empty)
    with sift_done [OF less.prems(6) True] show ?thesis by simp
  next
    case False
    define s1 where "s1 = after s (t @ [Swap i ?l])"
    have r: "heapify n ?l s1 = Ok s'" using u False less.prems(1) by (simp add: s1_def)
    have n: "n \<le> int (length ?xs)" using less.prems by (simp add: len_def)
    have lc: "?l = 2 * i + 1 \<or> ?l = 2 * i + 2" using largest_cases [of ?xs n i] False by auto
    have ln: "?l < n" using largest_bound [OF False] .
    have i0: "0 \<le> i" using less.prems by simp
    have l0: "0 \<le> ?l" "?l < int (length ?xs)" "i < int (length ?xs)"
      using lc ln i0 n by auto
    have h1: "heights s1 = swapped ?xs i ?l"
      using t l0 i0 by (simp add: s1_def replay_confined_empty)
    have "heap_except (heights s1) lo n ?l"
      unfolding h1 using sift_step [OF less.prems(6) refl False less.prems(2,3) n] .
    moreover have "all_finite (heights s1)"
      unfolding h1 using all_finite_mset [OF mset_swapped [of i ?xs ?l]] l0 i0 less.prems(5)
      by simp
    moreover have "nat (n - ?l) < nat (n - i)" using lc ln i0 by auto
    moreover have "lo \<le> ?l" using lc less.prems i0 by auto
    moreover have "n \<le> len s1" using less.prems by (simp add: s1_def)
    ultimately show ?thesis
      using less.hyps [of ?l s1, OF _ r less.prems(2)] by simp
  qed
qed

lemma heapify_permutes:
  assumes "heapify n i s = Ok s'" "0 \<le> i" "n \<le> len s"
  obtains t where "s' = after s t" "confined {0..<n} t" "permuting t"
  using heapify_run [OF assms(2,3)] assms(1) by auto

lemma heap_build_heap:
  "heap_build i s = Ok s' \<Longrightarrow> - 1 \<le> i \<Longrightarrow> all_finite (heights s) \<Longrightarrow>
   heap_from (heights s) (i + 1) (len s) \<Longrightarrow>
   heap_from (heights s') 0 (len s) \<and> mset (heights s') = mset (heights s)"
proof (induction i s arbitrary: s' rule: heap_build.induct)
  case (1 i s)
  show ?case
  proof (cases "0 \<le> i")
    case True
    with "1.prems" obtain s1 where h: "heapify (len s) i s = Ok s1"
      and r: "heap_build (i - 1) s1 = Ok s'"
      by (auto simp: heap_build_unfold elim!: bindR_OkE)
    from heapify_permutes [OF h True] obtain t where
      t: "s1 = after s t" "permuting t" by auto
    have m1: "mset (heights s1) = mset (heights s)" using t by (simp add: mset_replay)
    have f1: "all_finite (heights s1)" using all_finite_mset [OF m1] "1.prems" by simp
    have l1: "len s1 = len s" using t by simp
    have "heap_except (heights s) i (len s) i"
      using "1.prems"(4) by (auto simp: heap_except_def heap_from_def)
    from heapify_sifts [OF h True order_refl order_refl "1.prems"(3) this]
    have "heap_from (heights s1) (i - 1 + 1) (len s1)" by (simp add: l1)
    with "1.IH" [OF True h r] "1.prems" True f1 m1 l1 show ?thesis by simp
  next
    case False
    with "1.prems" have "s' = s" "i = - 1" by (auto simp: heap_build_unfold)
    with "1.prems" show ?thesis by simp
  qed
qed

lemma heap_root_max:
  assumes "heap_from xs 0 n"
  shows "0 \<le> k \<Longrightarrow> k < n \<Longrightarrow> xs ! nat k \<le> xs ! nat 0"
proof (induction "nat k" arbitrary: k rule: less_induct)
  case less
  show ?case
  proof (cases "k = 0")
    case True
    then show ?thesis by simp
  next
    case False
    define q where "q = (k - 1) div 2"
    have q: "0 \<le> q" "q < k" "k = 2 * q + 1 \<or> k = 2 * q + 2"
      using False less.prems by (auto simp: q_def)
    have "heap_at xs n q" using assms q by (simp add: heap_from_def)
    then have "xs ! nat k \<le> xs ! nat q" using q less.prems by (auto simp: heap_at_def)
    moreover have "xs ! nat q \<le> xs ! nat 0"
      using less.hyps [of q] q less.prems by simp
    ultimately show ?thesis by simp
  qed
qed

text \<open>While the heap shrinks, everything after it is in its final place.\<close>

definition extracted :: "jsnum list \<Rightarrow> int \<Rightarrow> bool" where
  "extracted xs i =
     (\<forall>p q. 0 \<le> p \<and> p \<le> q \<and> i < q \<and> q < int (length xs) \<longrightarrow> xs ! nat p \<le> xs ! nat q)"

lemma heap_pop_extracts:
  assumes "heap_pop i s = Ok s'" "0 < i" "i < len s" "all_finite (heights s)"
    "heap_from (heights s) 0 (i + 1)" "extracted (heights s) i"
  shows "heap_from (heights s') 0 i \<and> extracted (heights s') (i - 1) \<and>
         mset (heights s') = mset (heights s)"
proof -
  let ?xs = "heights s"
  let ?ys = "swapped ?xs 0 i"
  have n0: "i < int (length ?xs)" using assms by (simp add: len_def)
  then have n1: "0 < int (length ?xs)" using assms(2) by linarith
  note n = n0 n1
  have b: "inb s 0" "inb s i" using assms by (auto simp: inb_def)
  define s1 where "s1 = after s [Swap 0 i, MarkFinal i]"
  have h: "heapify i 0 s1 = Ok s'"
    using assms(1) b by (simp add: heap_pop_def swapBars_Ok markAsSorted_Ok s1_def)
  have h1: "heights s1 = ?ys" using n assms(2) by (simp add: s1_def)
  have "i \<le> len s1" using assms by (simp add: s1_def)
  from heapify_permutes [OF h order_refl this] obtain t where
    t: "s' = after s1 t" "confined {0..<i} t" "permuting t" by auto
  let ?zs = "replay t ?ys"
  have z: "heights s' = ?zs" using t h1 by simp
  have nth: "\<And>k. 0 \<le> k \<Longrightarrow> ?ys ! nat k =
      (if k = i then ?xs ! nat 0 else if k = 0 then ?xs ! nat i else ?xs ! nat k)"
    using n assms(2) by (simp add: nth_swapped)
  have my: "mset ?ys = mset ?xs" using n assms(2) by (simp add: mset_swapped)
  have fy: "all_finite ?ys" using all_finite_mset [OF my] assms(4) by simp
  have root: "\<And>k. 0 \<le> k \<Longrightarrow> k \<le> i \<Longrightarrow> ?xs ! nat k \<le> ?xs ! nat 0"
    using heap_root_max [OF assms(5)] by simp
  have ex: "\<And>p q. 0 \<le> p \<Longrightarrow> p \<le> q \<Longrightarrow> i < q \<Longrightarrow> q < int (length ?xs) \<Longrightarrow> ?xs ! nat p \<le> ?xs ! nat q"
    using assms(6) by (simp add: extracted_def)
  have "heap_except (heights s1) 0 i 0"
    unfolding heap_except_def h1
  proof (intro conjI allI impI)
    fix k assume k: "(0::int) \<le> k \<and> k \<noteq> 0"
    have "heap_at ?xs (i + 1) k" using assms(5) k by (simp add: heap_from_def)
    then show "heap_at ?ys i k"
      using k by (auto simp: heap_at_def nth)
  next
    fix q c :: int
    assume "0 \<le> q \<and> (0 = 2 * q + 1 \<or> 0 = 2 * q + 2) \<and> (c = 2 * 0 + 1 \<or> c = 2 * 0 + 2) \<and> c < i"
    then have False by presburger
    then show "?ys ! nat c \<le> ?ys ! nat q" ..
  qed
  from heapify_sifts [OF h order_refl order_refl _ _ this] assms fy h1
  have hp: "heap_from ?zs 0 i" by (simp add: s1_def z)
  have fr: "\<And>k. i \<le> k \<Longrightarrow> ?zs ! nat k = ?ys ! nat k"
    using replay_frame [OF t(2), of _ ?ys] assms(2) by simp
  have bound: "\<forall>k \<in> {0..<i}. 0 \<le> k \<and> k < int (length ?ys) \<longrightarrow> ?zs ! nat k \<le> v"
    if "\<And>k. 0 \<le> k \<Longrightarrow> k < i \<Longrightarrow> ?ys ! nat k \<le> v" for v
    using that by (intro replay_pred [OF t(3,2)]) auto
  have "extracted ?zs (i - 1)"
    unfolding extracted_def
  proof (intro allI impI)
    fix p q
    assume a: "0 \<le> p \<and> p \<le> q \<and> i - 1 < q \<and> q < int (length ?zs)"
    then have q: "i \<le> q" "0 \<le> q" "q < int (length ?xs)" using assms(2) by auto
    have zq: "?zs ! nat q = (if q = i then ?xs ! nat 0 else ?xs ! nat q)"
      using fr [OF q(1)] q assms(2) by (simp add: nth)
    have low: "?ys ! nat k \<le> ?zs ! nat q" if "0 \<le> k" "k < i" for k
      unfolding zq
    proof (cases "q = i")
      case True
      then show "?ys ! nat k \<le> (if q = i then ?xs ! nat 0 else ?xs ! nat q)"
        using that root [of k] root [of i] assms(2) by (simp add: nth)
    next
      case False
      then show "?ys ! nat k \<le> (if q = i then ?xs ! nat 0 else ?xs ! nat q)"
        using that ex [of k q] ex [of i q] q assms(2) by (simp add: nth)
    qed
    show "?zs ! nat p \<le> ?zs ! nat q"
    proof (cases "p < i")
      case True
      with bound [of "?zs ! nat q"] low a n show ?thesis by simp
    next
      case False
      then have p: "i \<le> p" by simp
      show ?thesis
      proof (cases "p = q")
        case True
        then show ?thesis by simp
      next
        case pq: False
        then have "i < q" "p < q" using p a by auto
        then show ?thesis
          using fr [OF p] fr [OF q(1)] p a q ex [of p q] ex [of 0 q] assms(2)
          by (auto simp: nth)
      qed
    qed
  qed
  with hp t my show ?thesis by (simp add: z h1 mset_replay)
qed

lemma heap_pop_len: "heap_pop i s = Ok s' \<Longrightarrow> 0 < i \<Longrightarrow> i < len s \<Longrightarrow> len s' = len s"
  using heap_pop_run [of i s] by auto

lemma heap_extract_sorts:
  "heap_extract i s = Ok s' \<Longrightarrow> i < len s \<Longrightarrow> all_finite (heights s) \<Longrightarrow>
   heap_from (heights s) 0 (i + 1) \<Longrightarrow> extracted (heights s) i \<Longrightarrow>
   extracted (heights s') 0 \<and> mset (heights s') = mset (heights s)"
proof (induction i s arbitrary: s' rule: heap_extract.induct)
  case (1 i s)
  show ?case
  proof (cases "0 < i")
    case True
    with "1.prems" obtain s1 where p: "heap_pop i s = Ok s1"
      and r: "heap_extract (i - 1) s1 = Ok s'"
      by (auto simp: heap_extract_unfold elim!: bindR_OkE)
    from heap_pop_extracts [OF p True "1.prems"(2,3,4,5)] have
      e: "heap_from (heights s1) 0 i" "extracted (heights s1) (i - 1)"
        "mset (heights s1) = mset (heights s)"
      by simp_all
    have "all_finite (heights s1)" using all_finite_mset [OF e(3)] "1.prems" by simp
    moreover have "len s1 = len s" using heap_pop_len [OF p True "1.prems"(2)] .
    ultimately show ?thesis
      using "1.IH" [OF True p r] "1.prems" e by simp
  next
    case False
    with "1.prems" have e: "s' = s" by (simp add: heap_extract_unfold)
    have "extracted (heights s) 0"
      using "1.prems"(5) False by (auto simp: extracted_def)
    with e show ?thesis by simp
  qed
qed

lemma extracted_sorted: "extracted xs 0 \<Longrightarrow> sorted xs"
  unfolding sorted_int_iff extracted_def
proof (intro allI impI)
  fix p q
  assume a: "\<forall>p q. 0 \<le> p \<and> p \<le> q \<and> 0 < q \<and> q < int (length xs) \<longrightarrow> xs ! nat p \<le> xs ! nat q"
    and b: "0 \<le> p \<and> p \<le> q \<and> q < int (length xs)"
  show "xs ! nat p \<le> xs ! nat q"
  proof (cases "0 < q")
    case True
    with a b show ?thesis by simp
  next
    case False
    with b have "p = q" by simp
    then show ?thesis by simp
  qed
qed

lemma heapSort_sorts:
  assumes "heapSort s = Ok s'" "all_finite (heights s)"
  shows "sorted (heights s') \<and> mset (heights s') = mset (heights s)"
proof -
  from assms(1) obtain s1 s2 where b: "heap_build (len s div 2 - 1) s = Ok s1"
    and e: "heap_extract (len s1 - 1) s1 = Ok s2" and m: "markAsSorted 0 s2 = Ok s'"
    by (auto simp: heapSort_def elim!: bindR_OkE)
  have "heap_from (heights s) (len s div 2 - 1 + 1) (len s)"
    by (auto simp: heap_from_def heap_at_def)
  from heap_build_heap [OF b _ assms(2) this] have
    h: "heap_from (heights s1) 0 (len s)" "mset (heights s1) = mset (heights s)"
    by (simp_all add: len_def)
  have l1: "len s1 = len s"
    using h(2) by (metis len_def size_mset)
  have f1: "all_finite (heights s1)" using all_finite_mset [OF h(2)] assms(2) by simp
  have "extracted (heights s1) (len s1 - 1)"
    by (auto simp: extracted_def len_def)
  from heap_extract_sorts [OF e _ f1 _ this] h l1 have
    "extracted (heights s2) 0" "mset (heights s2) = mset (heights s)"
    by simp_all
  with markAsSorted_heights [OF m] show ?thesis by (simp add: extracted_sorted)
qed

subsection \<open>All seven\<close>

lemma startSort_Ok_sorts:
  assumes "algorithm \<in> set algorithms" "startSort algorithm s = Some (Ok s')"
    "all_finite (heights s)"
  shows "sorted (heights s') \<and> mset (heights s') = mset (heights s)"
  using assms(1)
proof (cases rule: algorithms_cases)
  case 1
  with assms bubbleSort_sorts [of s s'] show ?thesis by (simp add: startSort_simps)
next
  case 2
  with assms selectionSort_sorts [of s s'] show ?thesis by (simp add: startSort_simps)
next
  case 3
  with assms insertionSort_sorts [of s s'] show ?thesis by (simp add: startSort_simps)
next
  case 4
  with assms quickSort_sorts [of s s'] show ?thesis by (simp add: startSort_simps)
next
  case 5
  with assms mergeSort_sorts [of s s'] show ?thesis by (simp add: startSort_simps)
next
  case 6
  with assms heapSort_sorts [of s s'] show ?thesis by (simp add: startSort_simps)
next
  case 7
  with assms shellSort_sorts [of s s'] show ?thesis by (simp add: startSort_simps)
qed

lemma startSort_sorts:
  assumes "algorithm \<in> set algorithms" "all_finite (heights s)"
  shows "\<exists>r. startSort algorithm s = Some r \<and> sorted (heights (final r)) \<and>
             mset (heights (final r)) = mset (heights s)"
proof (cases "algorithm = ''heap'' \<and> len s = 0")
  case True
  then have "startSort algorithm s = Some (Threw s)" "heights s = []"
    by (simp_all add: startSort_heap_empty len_def)
  then show ?thesis by simp
next
  case False
  then have "algorithm \<noteq> ''heap'' \<or> 0 < len s" by (auto simp: len_def)
  from startSort_run [OF assms(1) this] obtain t where
    r: "startSort algorithm s = Some (Ok (after s t))" by auto
  from startSort_Ok_sorts [OF assms(1) r assms(2)] r show ?thesis by simp
qed


section \<open>Runs on an array that is already sorted\<close>

text \<open>
  On an array of finite numbers in non-decreasing order, six of the algorithms emit only
  steps that leave the array as it is. Bubble and selection sort emit no swap and no
  overwrite at all; the only swaps of quick sort exchange a slot with itself; the
  overwrites of insertion, shell and merge sort give a slot the value it holds.
  \<open>still P t xs\<close>: no step of \<open>t\<close> changes \<open>xs\<close>, and every step of \<open>t\<close> has the shape \<open>P\<close>.
\<close>

definition still :: "(jsnum list \<Rightarrow> step \<Rightarrow> bool) \<Rightarrow> step list \<Rightarrow> jsnum list \<Rightarrow> bool" where
  "still P t xs = (quiet t xs \<and> list_all (P xs) t)"

lemma still_Nil [simp]: "still P [] xs"
  by (simp add: still_def)

lemma still_Cons [simp]:
  "still P (st # t) xs = (apply_step st xs = xs \<and> P xs st \<and> still P t xs)"
  by (auto simp: still_def)

lemma still_append [simp]: "still P (t @ u) xs = (still P t xs \<and> still P u xs)"
  by (induction t) auto

lemma still_replay: "still P t xs \<Longrightarrow> replay t xs = xs"
  by (induction t) auto

lemma still_marks: "(\<And>k. P xs (MarkFinal k)) \<Longrightarrow> still P (map MarkFinal ks) xs"
  by (induction ks) auto

lemma self_swap_step: "apply_step (Swap k k) xs = xs"
  by (simp add: apply_step.simps(2))

lemma still_quiet: "still P t xs \<Longrightarrow> quiet t xs"
  by (simp add: still_def)

lemma still_shape: "still P t xs \<Longrightarrow> list_all (P xs) t"
  by (simp add: still_def)

definition ordered :: "state \<Rightarrow> bool" where
  "ordered s = (sorted (heights s) \<and> all_finite (heights s))"

lemma ordered_after [simp]: "still P t (heights s) \<Longrightarrow> ordered (after s t) = ordered s"
  by (simp add: ordered_def still_replay)

lemma ordered_le:
  assumes "ordered s" "inb s p" "inb s q" "p \<le> q"
  shows "heights s ! nat p \<le> heights s ! nat q"
  using assms by (simp add: ordered_def sorted_int_iff inb_def len_def)

lemma ordered_js:
  assumes "ordered s" "inb s p" "inb s q" "p \<le> q"
  shows "\<not> js_gt (heights s ! nat p) (heights s ! nat q)"
    and "\<not> js_lt (heights s ! nat q) (heights s ! nat p)"
    and "js_le (heights s ! nat p) (heights s ! nat q)"
proof -
  have f: "heights s ! nat p \<noteq> NaN" "heights s ! nat q \<noteq> NaN"
    using assms by (simp_all add: ordered_def all_finite_nth inb_def len_def)
  from ordered_le [OF assms] f
  show "\<not> js_gt (heights s ! nat p) (heights s ! nat q)"
    and "\<not> js_lt (heights s ! nat q) (heights s ! nat p)"
    and "js_le (heights s ! nat p) (heights s ! nat q)"
    by (simp_all add: js_ops_finite)
qed

subsection \<open>Bubble sort\<close>

lemma bubble_inner_idle:
  "ordered s \<Longrightarrow> 0 \<le> i \<Longrightarrow> 0 \<le> j \<Longrightarrow>
   \<exists>t. bubble_inner i j s = Ok (after s t) \<and> still (\<lambda>_. no_write) t (heights s)"
proof (induction i j s rule: bubble_inner.induct)
  case (1 i j s)
  show ?case
  proof (cases "j < len s - i - 1")
    case True
    then have b: "inb s j" "inb s (j + 1)" using 1 by (auto simp: inb_def)
    have "\<not> js_gt (heights s ! nat j) (heights s ! nat (j + 1))"
      by (rule ordered_js(1) [OF "1.prems"(1) b]) simp
    with bubble_body_eq [OF b] have body: "bubble_body j s = Ok (after s [Compare j (j + 1)])"
      by simp
    from "1.IH" [OF True body] "1.prems" obtain t where
      "bubble_inner i (j + 1) (after s [Compare j (j + 1)]) = Ok (after s (Compare j (j + 1) # t))"
      "still (\<lambda>_. no_write) t (heights s)"
      by auto
    then show ?thesis
      by (intro exI [of _ "Compare j (j + 1) # t"]) (simp add: bubble_inner_unfold True body)
  next
    case False
    then show ?thesis by (intro exI [of _ "[]"]) (simp add: bubble_inner_unfold)
  qed
qed

lemma bubble_outer_idle:
  "ordered s \<Longrightarrow> 0 \<le> i \<Longrightarrow> \<exists>t. bubble_outer i s = Ok (after s t) \<and> still (\<lambda>_. no_write) t (heights s)"
proof (induction i s rule: bubble_outer.induct)
  case (1 i s)
  show ?case
  proof (cases "i < len s")
    case True
    from bubble_inner_idle [of s i 0] "1.prems" obtain t1 where
      b: "bubble_inner i 0 s = Ok (after s t1)" and t1: "still (\<lambda>_. no_write) t1 (heights s)"
      by auto
    from "1.IH" [OF True b] "1.prems" t1 obtain t2 where
      "bubble_outer (i + 1) (after s t1) = Ok (after s (t1 @ t2))" "still (\<lambda>_. no_write) t2 (heights s)"
      by (auto simp: still_replay)
    with t1 show ?thesis
      by (intro exI [of _ "t1 @ t2"]) (simp add: bubble_outer_unfold True b)
  next
    case False
    then show ?thesis by (intro exI [of _ "[]"]) (simp add: bubble_outer_unfold)
  qed
qed

lemma bubbleSort_idle:
  assumes "ordered s"
  shows "\<exists>t. bubbleSort s = Ok (after s t) \<and> still (\<lambda>_. no_write) t (heights s)"
proof -
  from bubble_outer_idle [OF assms, of 0] obtain t where
    b: "bubble_outer 0 s = Ok (after s t)" and t: "still (\<lambda>_. no_write) t (heights s)" by auto
  have "mark_all (len (after s t)) 0 (after s t)
        = Ok (after (after s t) (map MarkFinal [0..len (after s t) - 1]))"
    by (rule mark_all_eq) simp_all
  with b t show ?thesis
    by (intro exI [of _ "t @ map MarkFinal [0..len s - 1]"])
       (simp add: bubbleSort_def still_marks)
qed

subsection \<open>Selection sort\<close>

lemma selection_inner_idle:
  "ordered s \<Longrightarrow> inb s m \<Longrightarrow> m < j \<Longrightarrow>
   \<exists>t. selection_inner j m s = Ok (m, after s t) \<and> still (\<lambda>_. no_write) t (heights s)"
proof (induction j m s rule: selection_inner.induct)
  case (1 j m s)
  show ?case
  proof (cases "j < len s")
    case True
    then have b: "inb s j" using 1 by (auto simp: inb_def)
    have "\<not> js_lt (heights s ! nat j) (heights s ! nat m)"
      by (rule ordered_js(2) [OF "1.prems"(1,2) b]) (use "1.prems" in simp)
    with selection_body_eq [OF b "1.prems"(2)] have
      body: "selection_body j m s = Ok (m, after s [Compare j m])"
      by simp
    from "1.IH" [OF True body refl] "1.prems" obtain t where
      "selection_inner (j + 1) m (after s [Compare j m]) = Ok (m, after s (Compare j m # t))"
      "still (\<lambda>_. no_write) t (heights s)"
      by auto
    then show ?thesis
      by (intro exI [of _ "Compare j m # t"]) (simp add: selection_inner_unfold True body)
  next
    case False
    then show ?thesis by (intro exI [of _ "[]"]) (simp add: selection_inner_unfold)
  qed
qed

lemma selection_step_idle:
  assumes "ordered s" "inb s i"
  shows "\<exists>t. selection_step i s = Ok (after s t) \<and> still (\<lambda>_. no_write) t (heights s)"
proof -
  from selection_inner_idle [OF assms, of "i + 1"] obtain t where
    r: "selection_inner (i + 1) i s = Ok (i, after s t)" and t: "still (\<lambda>_. no_write) t (heights s)"
    by auto
  then show ?thesis using assms
    by (intro exI [of _ "t @ [MarkFinal i]"]) (simp add: selection_step_def markAsSorted_Ok)
qed

lemma selection_outer_idle:
  "ordered s \<Longrightarrow> 0 \<le> i \<Longrightarrow> \<exists>t. selection_outer i s = Ok (after s t) \<and> still (\<lambda>_. no_write) t (heights s)"
proof (induction i s rule: selection_outer.induct)
  case (1 i s)
  show ?case
  proof (cases "i < len s")
    case True
    then have "inb s i" using 1 by (simp add: inb_def)
    from selection_step_idle [OF "1.prems"(1) this] obtain t1 where
      b: "selection_step i s = Ok (after s t1)" and t1: "still (\<lambda>_. no_write) t1 (heights s)"
      by auto
    from "1.IH" [OF True b] "1.prems" t1 obtain t2 where
      "selection_outer (i + 1) (after s t1) = Ok (after s (t1 @ t2))" "still (\<lambda>_. no_write) t2 (heights s)"
      by (auto simp: still_replay)
    with t1 show ?thesis
      by (intro exI [of _ "t1 @ t2"]) (simp add: selection_outer_unfold True b)
  next
    case False
    then show ?thesis by (intro exI [of _ "[]"]) (simp add: selection_outer_unfold)
  qed
qed

subsection \<open>Insertion sort\<close>

lemma insertion_step_idle:
  assumes "ordered s" "inb s i" "1 \<le> i"
  shows "\<exists>t. insertion_step i s = Ok (after s t) \<and> still self_overwrite t (heights s) \<and>
             marks t = [i]"
proof -
  have b: "inb s (i - 1)" "0 \<le> i - 1" using assms by (auto simp: inb_def)
  have "\<not> js_gt (heights s ! nat (i - 1)) (heights s ! nat i)"
    by (rule ordered_js(1) [OF assms(1) b(1) assms(2)]) simp
  from insertion_while_unfold(2) [OF b(2,1) this, of i] have
    r: "insertion_while i (heights s ! nat i) (i - 1) s = Ok (i - 1, after s [Compare (i - 1) i])" .
  have "insertion_step i s
        = Ok (after s [Compare (i - 1) i, Overwrite i (heights s ! nat i), MarkFinal i])"
    using assms(2) r by (simp add: insertion_step_def overwrite_Ok markAsSorted_Ok)
  moreover have "still self_overwrite
      [Compare (i - 1) i, Overwrite i (heights s ! nat i), MarkFinal i] (heights s)"
    using assms(2) by (simp add: inb_def len_def valid_index_def)
  moreover have "marks [Compare (i - 1) i, Overwrite i (heights s ! nat i), MarkFinal i] = [i]"
    by simp
  ultimately show ?thesis by blast
qed

lemma insertion_outer_idle:
  "ordered s \<Longrightarrow> 1 \<le> i \<Longrightarrow>
   \<exists>t. insertion_outer i s = Ok (after s t) \<and> still self_overwrite t (heights s) \<and>
       marks t = [i..len s - 1]"
proof (induction i s rule: insertion_outer.induct)
  case (1 i s)
  show ?case
  proof (cases "i < len s")
    case True
    then have "inb s i" using 1 by (simp add: inb_def)
    from insertion_step_idle [OF "1.prems"(1) this "1.prems"(2)] obtain t1 where
      b: "insertion_step i s = Ok (after s t1)" and t1: "still self_overwrite t1 (heights s)"
      and m1: "marks t1 = [i]"
      by auto
    from "1.IH" [OF True b] "1.prems" t1 obtain t2 where
      r: "insertion_outer (i + 1) (after s t1) = Ok (after s (t1 @ t2))"
      and t2: "still self_overwrite t2 (heights s)" and m2: "marks t2 = [i + 1..len s - 1]"
      by (auto simp: still_replay)
    have "[i..len s - 1] = i # [i + 1..len s - 1]" using True by (simp add: upto_rec1)
    with m1 m2 have "marks (t1 @ t2) = [i..len s - 1]" by simp
    with t1 t2 r show ?thesis
      by (intro exI [of _ "t1 @ t2"]) (simp add: insertion_outer_unfold True b)
  next
    case False
    then show ?thesis by (intro exI [of _ "[]"]) (simp add: insertion_outer_unfold)
  qed
qed

subsection \<open>Shell sort\<close>

lemma shell_step_idle:
  assumes "ordered s" "inb s i" "0 < gap" "gap \<le> i"
  shows "\<exists>t. shell_step gap i s = Some (Ok (after s t)) \<and> still self_overwrite t (heights s)"
proof -
  have b: "inb s (i - gap)" using assms by (auto simp: inb_def)
  have "\<not> js_gt (heights s ! nat (i - gap)) (heights s ! nat i)"
    by (rule ordered_js(1) [OF assms(1) b assms(2)]) (use assms in simp)
  from shell_inner_unfold(2) [OF assms(4) b this, of i] have
    r: "shell_inner i gap (heights s ! nat i) i s = Some (Ok (i, after s [Compare (i - gap) i]))" .
  have "shell_step gap i s
        = Some (Ok (after s [Compare (i - gap) i, Overwrite i (heights s ! nat i)]))"
    using assms(2) r by (simp add: shell_step_def overwrite_Ok)
  moreover have "still self_overwrite
      [Compare (i - gap) i, Overwrite i (heights s ! nat i)] (heights s)"
    using assms(2) by (simp add: inb_def len_def valid_index_def)
  ultimately show ?thesis by blast
qed

lemma shell_pass_idle:
  "ordered s \<Longrightarrow> 0 < gap \<Longrightarrow> gap \<le> i \<Longrightarrow> n \<le> len s \<Longrightarrow>
   \<exists>t. shell_pass n gap i s = Some (Ok (after s t)) \<and> still self_overwrite t (heights s)"
proof (induction n gap i s rule: shell_pass.induct)
  case (1 n gap i s)
  show ?case
  proof (cases "i < n")
    case True
    then have "inb s i" using 1 by (simp add: inb_def)
    from shell_step_idle [OF "1.prems"(1) this "1.prems"(2,3)] obtain t1 where
      b: "shell_step gap i s = Some (Ok (after s t1))" and t1: "still self_overwrite t1 (heights s)"
      by auto
    from "1.IH" [OF True b] "1.prems" t1 obtain t2 where
      "shell_pass n gap (i + 1) (after s t1) = Some (Ok (after s (t1 @ t2)))"
      "still self_overwrite t2 (heights s)"
      by (auto simp: still_replay)
    with t1 show ?thesis
      by (intro exI [of _ "t1 @ t2"]) (simp add: shell_pass_unfold True b)
  next
    case False
    then show ?thesis by (intro exI [of _ "[]"]) (simp add: shell_pass_unfold)
  qed
qed

lemma shell_gaps_idle:
  "ordered s \<Longrightarrow> n \<le> len s \<Longrightarrow>
   \<exists>t. shell_gaps n gap s = Some (Ok (after s t)) \<and> still self_overwrite t (heights s)"
proof (induction n gap s rule: shell_gaps.induct)
  case (1 n gap s)
  show ?case
  proof (cases "0 < gap")
    case True
    from shell_pass_idle [OF "1.prems"(1) True order_refl "1.prems"(2)] obtain t1 where
      b: "shell_pass n gap gap s = Some (Ok (after s t1))" and t1: "still self_overwrite t1 (heights s)"
      by auto
    from "1.IH" [OF True b] "1.prems" t1 obtain t2 where
      "shell_gaps n (gap div 2) (after s t1) = Some (Ok (after s (t1 @ t2)))"
      "still self_overwrite t2 (heights s)"
      by (auto simp: still_replay)
    with t1 show ?thesis
      by (intro exI [of _ "t1 @ t2"]) (simp add: shell_gaps_unfold True b)
  next
    case False
    then show ?thesis by (intro exI [of _ "[]"]) (simp add: shell_gaps_unfold)
  qed
qed

lemma shellSort_idle:
  assumes "ordered s"
  shows "\<exists>t. shellSort s = Some (Ok (after s t)) \<and> still self_overwrite t (heights s)"
proof -
  from shell_gaps_idle [OF assms order_refl, of "len s div 2"] obtain t where
    b: "shell_gaps (len s) (len s div 2) s = Some (Ok (after s t))"
    and t: "still self_overwrite t (heights s)" by auto
  have "mark_all (len s) 0 (after s t) = Ok (after (after s t) (map MarkFinal [0..len s - 1]))"
    by (rule mark_all_eq) simp_all
  with b t show ?thesis
    by (intro exI [of _ "t @ map MarkFinal [0..len s - 1]"])
       (simp add: shellSort_def Let_def still_marks)
qed

subsection \<open>Quick sort\<close>

lemma partition_loop_idle:
  "ordered s \<Longrightarrow> 0 \<le> j \<Longrightarrow> j \<le> high \<Longrightarrow> inb s high \<Longrightarrow>
   pivot = heights s ! nat high \<Longrightarrow> i = j - 1 \<Longrightarrow>
   \<exists>t. partition_loop high pivot i j s = Ok (high - 1, after s t) \<and>
       still (\<lambda>_. self_swap) t (heights s) \<and> marks t = []"
proof (induction high pivot i j s rule: partition_loop.induct)
  case (1 high pivot i j s)
  show ?case
  proof (cases "j < high")
    case True
    then have b: "inb s j" using 1 by (auto simp: inb_def)
    have "js_le (heights s ! nat j) pivot"
      unfolding "1.prems"(5)
      by (rule ordered_js(3) [OF "1.prems"(1) b "1.prems"(4)]) (use True in simp)
    with partition_body_eq [OF b, of i high pivot] "1.prems" have
      body: "partition_body high pivot i j s = Ok (i + 1, after s [Compare j high])"
      by simp
    from "1.IH" [OF True body refl] "1.prems" True obtain t where
      "partition_loop high pivot (i + 1) (j + 1) (after s [Compare j high])
       = Ok (high - 1, after s (Compare j high # t))"
      "still (\<lambda>_. self_swap) t (heights s)" "marks t = []"
      by auto
    then show ?thesis
      by (intro exI [of _ "Compare j high # t"]) (simp add: partition_loop_unfold True body)
  next
    case False
    with "1.prems" have "i = high - 1" by simp
    with False show ?thesis by (intro exI [of _ "[]"]) (simp add: partition_loop_unfold)
  qed
qed

lemma partition_idle:
  assumes "ordered s" "0 \<le> low" "low \<le> high" "high < len s"
  shows "\<exists>t. partition low high s = Ok (high, after s t) \<and>
             still (\<lambda>_. self_swap) t (heights s) \<and> marks t = [high]"
proof -
  have h: "inb s high" using assms by (simp add: inb_def)
  from partition_loop_idle [OF assms(1,2,3) h refl refl] obtain t where
    r: "partition_loop high (heights s ! nat high) (low - 1) low s = Ok (high - 1, after s t)"
    and t: "still (\<lambda>_. self_swap) t (heights s)" and m: "marks t = []"
    by auto
  have "partition low high s = Ok (high, after s (t @ [Swap high high, MarkFinal high]))"
    using h r by (simp add: partition_def swapBars_Ok markAsSorted_Ok)
  moreover have "still (\<lambda>_. self_swap) (t @ [Swap high high, MarkFinal high]) (heights s)"
    using t by (simp add: self_swap_step)
  moreover have "marks (t @ [Swap high high, MarkFinal high]) = [high]"
    using m by simp
  ultimately show ?thesis by blast
qed

lemma quickSortHelper_idle:
  "ordered s \<Longrightarrow> 0 \<le> low \<Longrightarrow> high < len s \<Longrightarrow>
   \<exists>t. quickSortHelper low high s = Ok (after s t) \<and> still (\<lambda>_. self_swap) t (heights s) \<and>
       marks t = rev [low + 1..high]"
proof (induction low high s rule: quickSortHelper.induct)
  case (1 low high s)
  show ?case
  proof (cases "low < high")
    case True
    from partition_idle [of s low high] True "1.prems" obtain t1 where
      b: "partition low high s = Ok (high, after s t1)"
      and t1: "still (\<lambda>_. self_swap) t1 (heights s)" and m1: "marks t1 = [high]"
      by auto
    from "1.IH"(1) [OF True b refl] "1.prems" t1 obtain t2 where
      l: "quickSortHelper low (high - 1) (after s t1) = Ok (after s (t1 @ t2))"
      and t2: "still (\<lambda>_. self_swap) t2 (heights s)" and m2: "marks t2 = rev [low + 1..high - 1]"
      by (auto simp: still_replay)
    have r: "quickSortHelper (high + 1) high (after s (t1 @ t2)) = Ok (after s (t1 @ t2))"
      by (simp add: quickSortHelper_unfold)
    have "[low + 1..high] = [low + 1..high - 1] @ [high]"
      using True by (simp add: upto_rec2)
    with m1 m2 have "marks (t1 @ t2) = rev [low + 1..high]" by simp
    with t1 t2 b l r show ?thesis
      by (intro exI [of _ "t1 @ t2"]) (simp add: quickSortHelper_unfold True)
  next
    case False
    then show ?thesis by (intro exI [of _ "[]"]) (simp add: quickSortHelper_unfold)
  qed
qed

subsection \<open>Merge sort\<close>

lemma nth_slice:
  assumes "0 \<le> a" "a \<le> b" "b \<le> int (length xs)" "0 \<le> i" "i < b - a"
  shows "slice xs a b ! nat i = xs ! nat (a + i)"
proof -
  have "nat a + nat i = nat (a + i)" using assms by simp
  then show ?thesis using assms by (simp add: slice_eq)
qed

lemma merge_both_idle:
  "ordered s \<Longrightarrow> 0 \<le> left \<Longrightarrow> left \<le> mid \<Longrightarrow> mid < right \<Longrightarrow> right < len s \<Longrightarrow>
   la = slice (heights s) left (mid + 1) \<Longrightarrow> ra = slice (heights s) (mid + 1) (right + 1) \<Longrightarrow>
   0 \<le> i \<Longrightarrow> i \<le> int (length la) \<Longrightarrow> j = 0 \<Longrightarrow> k = left + i \<Longrightarrow>
   \<exists>t. merge_both left mid la ra i j k s = Ok (int (length la), 0, mid + 1, after s t) \<and>
       still self_overwrite t (heights s)"
proof (induction left mid la ra i j k s rule: merge_both.induct)
  case (1 left mid la ra i j k s)
  have la: "int (length la) = mid + 1 - left" and ra: "int (length ra) = right - mid"
    using "1.prems" by (simp_all add: length_slice len_def)
  show ?case
  proof (cases "i < int (length la)")
    case True
    then have c: "i < int (length la) \<and> j < int (length ra)" using "1.prems" ra by simp
    have b: "inb s k" "inb s (mid + 1)" using "1.prems" True la by (auto simp: inb_def)
    have bounds: "left \<le> mid + 1" "mid + 1 \<le> int (length (heights s))"
      "mid + 1 \<le> right + 1" "right + 1 \<le> int (length (heights s))" "i < mid + 1 - left"
      "(0::int) < right + 1 - (mid + 1)"
      using "1.prems" True la by (simp_all add: len_def)
    have "la ! nat i = heights s ! nat (left + i)"
      unfolding "1.prems"(6)
      by (rule nth_slice [OF "1.prems"(2) bounds(1,2) "1.prems"(8) bounds(5)])
    then have li: "la ! nat i = heights s ! nat k" using "1.prems"(11) by simp
    have m0: "(0::int) \<le> mid + 1" using "1.prems" by simp
    have "ra ! nat 0 = heights s ! nat (mid + 1 + 0)"
      unfolding "1.prems"(7)
      by (rule nth_slice [OF m0 bounds(3,4) order_refl bounds(6)])
    then have rj: "ra ! nat j = heights s ! nat (mid + 1)" using "1.prems"(10) by simp
    have le: "js_le (la ! nat i) (ra ! nat j)"
      unfolding li rj by (rule ordered_js(3) [OF "1.prems"(1) b]) (use "1.prems" True la in simp)
    have jr: "0 \<le> j" "j < int (length ra)" using "1.prems"(10) c by simp_all
    have body: "merge_body left mid la ra i j k s
             = Ok (i + 1, j, after s [Compare (left + i) (mid + 1 + j),
                 Overwrite k (heights s ! nat k), MarkFinal k])"
      unfolding merge_body_eq [OF b(1) "1.prems"(8) True jr, of left mid]
      using le by (simp add: li)
    have q: "still self_overwrite [Compare (left + i) (mid + 1 + j), Overwrite k (heights s ! nat k),
        MarkFinal k] (heights s)"
      using b(1) by (simp add: inb_def len_def valid_index_def)
    from "1.IH" [OF c body refl refl] "1.prems" True q obtain t where
      "merge_both left mid la ra (i + 1) j (k + 1) (after s [Compare (left + i) (mid + 1 + j),
          Overwrite k (heights s ! nat k), MarkFinal k])
       = Ok (int (length la), 0, mid + 1, after s ([Compare (left + i) (mid + 1 + j),
          Overwrite k (heights s ! nat k), MarkFinal k] @ t))"
      "still self_overwrite t (heights s)"
      by (auto simp: still_replay)
    with q show ?thesis
      by (intro exI [of _ "[Compare (left + i) (mid + 1 + j),
          Overwrite k (heights s ! nat k), MarkFinal k] @ t"])
         (simp add: merge_both_unfold(1) [OF c] body)
  next
    case False
    with "1.prems" la have "i = int (length la)" "k = mid + 1" by simp_all
    with False "1.prems" show ?thesis
      by (intro exI [of _ "[]"]) (simp add: merge_both_unfold)
  qed
qed

lemma merge_rest_idle:
  "0 \<le> a \<Longrightarrow> a \<le> b \<Longrightarrow> b \<le> len s \<Longrightarrow> buf = slice (heights s) a b \<Longrightarrow>
   0 \<le> i \<Longrightarrow> i \<le> int (length buf) \<Longrightarrow> k = a + i \<Longrightarrow>
   \<exists>t. merge_rest buf i k s = Ok (b, after s t) \<and> still self_overwrite t (heights s)"
proof (induction buf i k s rule: merge_rest.induct)
  case (1 buf i k s)
  have lb: "int (length buf) = b - a"
    using "1.prems" by (simp add: length_slice len_def)
  show ?case
  proof (cases "i < int (length buf)")
    case True
    have b: "inb s k" using "1.prems" True lb by (auto simp: inb_def)
    have bounds: "b \<le> int (length (heights s))" "i < b - a"
      using "1.prems" True lb by (simp_all add: len_def)
    have "buf ! nat i = heights s ! nat (a + i)"
      unfolding "1.prems"(4)
      by (rule nth_slice [OF "1.prems"(1,2) bounds(1) "1.prems"(5) bounds(2)])
    then have bi: "buf ! nat i = heights s ! nat k" using "1.prems"(7) by simp
    have g: "aget s buf i = Ok (heights s ! nat k)"
      using aget_Ok [OF "1.prems"(5) True, of s] by (simp only: bi)
    have p: "place k (heights s ! nat k) s
             = Ok (after s [Overwrite k (heights s ! nat k), MarkFinal k])"
      using b by (rule place_Ok)
    have q: "still self_overwrite [Overwrite k (heights s ! nat k), MarkFinal k] (heights s)"
      using b by (simp add: inb_def len_def valid_index_def)
    from "1.IH" [OF True g p] "1.prems" True q obtain t where
      "merge_rest buf (i + 1) (k + 1) (after s [Overwrite k (heights s ! nat k), MarkFinal k])
       = Ok (b, after s ([Overwrite k (heights s ! nat k), MarkFinal k] @ t))"
      "still self_overwrite t (heights s)"
      by (auto simp: still_replay)
    with q show ?thesis
      by (intro exI [of _ "[Overwrite k (heights s ! nat k), MarkFinal k] @ t"])
         (simp add: merge_rest_unfold True g p)
  next
    case False
    with "1.prems" lb have "k = b" by simp
    with False show ?thesis by (intro exI [of _ "[]"]) (simp add: merge_rest_unfold)
  qed
qed

lemma merge_idle:
  assumes "ordered s" "0 \<le> left" "left \<le> mid" "mid < right" "right < len s"
  shows "\<exists>t. merge left mid right s = Ok (after s t) \<and> still self_overwrite t (heights s)"
proof -
  define la where "la = slice (heights s) left (mid + 1)"
  define ra where "ra = slice (heights s) (mid + 1) (right + 1)"
  have la: "int (length la) = mid + 1 - left" and ra: "int (length ra) = right - mid"
    using assms by (simp_all add: la_def ra_def length_slice len_def)
  from merge_both_idle [OF assms la_def ra_def order_refl _ refl, of left] la assms obtain t1 where
    b: "merge_both left mid la ra 0 0 left s = Ok (int (length la), 0, mid + 1, after s t1)"
    and t1: "still self_overwrite t1 (heights s)"
    by auto
  have "\<exists>t. merge_rest la (int (length la)) (mid + 1) (after s t1)
            = Ok (mid + 1, after (after s t1) t) \<and> still self_overwrite t (heights (after s t1))"
    by (rule merge_rest_idle [where a = left])
       (use assms la t1 in \<open>simp_all add: la_def still_replay\<close>)
  then obtain t2 where
    l: "merge_rest la (int (length la)) (mid + 1) (after s t1) = Ok (mid + 1, after s (t1 @ t2))"
    and t2: "still self_overwrite t2 (heights s)"
    using t1 by (auto simp: still_replay)
  have "\<exists>t. merge_rest ra 0 (mid + 1) (after s (t1 @ t2))
            = Ok (right + 1, after (after s (t1 @ t2)) t) \<and> still self_overwrite t (heights (after s (t1 @ t2)))"
    by (rule merge_rest_idle [where a = "mid + 1"])
       (use assms ra t1 t2 in \<open>simp_all add: ra_def still_replay\<close>)
  then obtain t3 where
    r: "merge_rest ra 0 (mid + 1) (after s (t1 @ t2)) = Ok (right + 1, after s (t1 @ t2 @ t3))"
    and t3: "still self_overwrite t3 (heights s)"
    using t1 t2 by (auto simp: still_replay)
  have "merge left mid right s = Ok (after s (t1 @ t2 @ t3))"
    using b l r by (simp add: merge_def Let_def la_def [symmetric] ra_def [symmetric])
  with t1 t2 t3 show ?thesis by (intro exI [of _ "t1 @ t2 @ t3"]) simp
qed

lemma mergeSortHelper_idle:
  "ordered s \<Longrightarrow> 0 \<le> left \<Longrightarrow> right < len s \<Longrightarrow>
   \<exists>t. mergeSortHelper left right s = Ok (after s t) \<and> still self_overwrite t (heights s)"
proof (induction left right s rule: mergeSortHelper.induct)
  case (1 left right s)
  show ?case
  proof (cases "left < right")
    case True
    define mid where "mid = (left + right) div 2"
    have mid: "left \<le> mid" "mid < right" using True by (auto simp: mid_def)
    from "1.IH"(1) [OF True mid_def] "1.prems" mid obtain t1 where
      l: "mergeSortHelper left mid s = Ok (after s t1)" and t1: "still self_overwrite t1 (heights s)"
      by auto
    from "1.IH"(2) [OF True mid_def l] "1.prems" mid t1 obtain t2 where
      r: "mergeSortHelper (mid + 1) right (after s t1) = Ok (after s (t1 @ t2))"
      and t2: "still self_overwrite t2 (heights s)"
      by (auto simp: still_replay)
    from merge_idle [of "after s (t1 @ t2)" left mid right] "1.prems" mid t1 t2 obtain t3 where
      m: "merge left mid right (after s (t1 @ t2)) = Ok (after s (t1 @ t2 @ t3))"
      and t3: "still self_overwrite t3 (heights s)"
      by (auto simp: still_replay)
    from l r m t1 t2 t3 show ?thesis
      by (intro exI [of _ "t1 @ t2 @ t3"])
         (simp add: mergeSortHelper_unfold True mid_def [symmetric])
  next
    case False
    then show ?thesis by (intro exI [of _ "[]"]) (simp add: mergeSortHelper_unfold)
  qed
qed

subsection \<open>All but heap sort\<close>

lemma sorted_same_mset:
  assumes "sorted xs" "sorted ys" "mset ys = mset xs"
  shows "ys = (xs :: jsnum list)"
proof -
  from properties_for_sort [OF assms(3,2)] have "sort xs = ys" .
  with sorted_sort_id [OF assms(1)] show ?thesis by simp
qed

lemma startSort_idle:
  assumes "ordered s"
  shows "\<exists>t. startSort ''bubble'' s = Some (Ok (after s t)) \<and>
             still (\<lambda>_. no_write) t (heights s)"
    and "\<exists>t. startSort ''selection'' s = Some (Ok (after s t)) \<and>
             still (\<lambda>_. no_write) t (heights s)"
    and "\<exists>t. startSort ''insertion'' s = Some (Ok (after s t)) \<and>
             still self_overwrite t (heights s) \<and> marks t = [1..len s - 1]"
    and "\<exists>t. startSort ''quick'' s = Some (Ok (after s t)) \<and>
             still (\<lambda>_. self_swap) t (heights s) \<and> marks t = rev [1..len s - 1]"
    and "\<exists>t. startSort ''merge'' s = Some (Ok (after s t)) \<and>
             still self_overwrite t (heights s)"
    and "\<exists>t. startSort ''shell'' s = Some (Ok (after s t)) \<and>
             still self_overwrite t (heights s)"
proof -
  from bubbleSort_idle [OF assms]
  show "\<exists>t. startSort ''bubble'' s = Some (Ok (after s t)) \<and>
           still (\<lambda>_. no_write) t (heights s)"
    by (simp add: startSort_simps)
  from selection_outer_idle [OF assms, of 0]
  show "\<exists>t. startSort ''selection'' s = Some (Ok (after s t)) \<and>
           still (\<lambda>_. no_write) t (heights s)"
    by (simp add: startSort_simps selectionSort_def)
  from insertion_outer_idle [OF assms, of 1]
  show "\<exists>t. startSort ''insertion'' s = Some (Ok (after s t)) \<and>
           still self_overwrite t (heights s) \<and> marks t = [1..len s - 1]"
    by (simp add: startSort_simps insertionSort_def)
  from quickSortHelper_idle [OF assms, of 0 "len s - 1"]
  show "\<exists>t. startSort ''quick'' s = Some (Ok (after s t)) \<and>
           still (\<lambda>_. self_swap) t (heights s) \<and> marks t = rev [1..len s - 1]"
    by (simp add: startSort_simps quickSort_def)
  from mergeSortHelper_idle [OF assms, of 0 "len s - 1"]
  show "\<exists>t. startSort ''merge'' s = Some (Ok (after s t)) \<and>
           still self_overwrite t (heights s)"
    by (simp add: startSort_simps mergeSort_def)
  from shellSort_idle [OF assms]
  show "\<exists>t. startSort ''shell'' s = Some (Ok (after s t)) \<and>
           still self_overwrite t (heights s)"
    by (simp add: startSort_simps)
qed
section \<open>Claims about every run\<close>

text \<open>
  Claim C1. For every array of finite numbers, of any length, and each of the seven
  algorithms, the run ends with an array that is in non-decreasing order (by the
  comparison of the language) and has the same multiset of values as the input.
  (Heap sort on the empty array ends by the exception of claim C6; the array it leaves
  is the empty one.)
\<close>

theorem every_algorithm_sorts_and_permutes:
  assumes "all_finite xs" and "algorithm \<in> set algorithms"
  shows "\<exists>r. startSort algorithm (init xs) = Some r \<and>
             sorted_wrt js_le (heights (final r)) \<and>
             mset (heights (final r)) = mset xs"
proof -
  from startSort_sorts [OF assms(2), of "init xs"] assms(1) obtain r where
    r: "startSort algorithm (init xs) = Some r" "sorted (heights (final r))"
      "mset (heights (final r)) = mset xs"
    by auto
  from all_finite_mset [OF r(3)] assms(1) have "all_finite (heights (final r))" by simp
  with r show ?thesis by (simp add: sorted_wrt_js_le)
qed

theorem every_algorithm_sorts_and_permutes_witness:
  "all_finite [Num 3, Num 1, Num 2, Num 1] \<and> ''heap'' \<in> set algorithms \<and>
   (\<exists>r. startSort ''heap'' (init [Num 3, Num 1, Num 2, Num 1]) = Some r \<and>
        heights (final r) = [Num 1, Num 1, Num 2, Num 3] \<and>
        sorted_wrt js_le (heights (final r)) \<and>
        mset (heights (final r)) = mset [Num 3, Num 1, Num 2, Num 1])"
proof -
  have a: "all_finite [Num 3, Num 1, Num 2, Num 1]" by (simp add: all_finite_def)
  have b: "''heap'' \<in> set algorithms" by (simp add: algorithms_def)
  have c: "heights (final (heapSort (init [Num 3, Num 1, Num 2, Num 1]))) =
      [Num 1, Num 1, Num 2, Num 3]" by code_simp
  from every_algorithm_sorts_and_permutes [OF a b] a b c show ?thesis
    by (auto simp: startSort_simps)
qed

text \<open>
  Claim C2. For each of the seven algorithms and every input array: replaying the
  logged steps on a fresh copy of the input gives the array the algorithm itself ends
  with, which is also what the bars of the page display. Moreover, at every logged
  action the array of the algorithm and the displayed bars both equal the copy replayed
  up to that action: \<open>shots\<close> holds the two arrays as they were at each action, and
  \<open>replays\<close> the copy after each step. (\<open>final\<close> also covers the one run that ends by
  an exception, heap sort on the empty array.)
\<close>

theorem trace_and_array_never_diverge:
  assumes "algorithm \<in> set algorithms"
  shows "\<exists>r. startSort algorithm (init xs) = Some r \<and>
             replay (trace (final r)) xs = heights (final r) \<and>
             bars (final r) = heights (final r) \<and>
             map fst (shots (final r)) = replays (trace (final r)) xs \<and>
             map snd (shots (final r)) = replays (trace (final r)) xs"
proof (cases "algorithm = ''heap'' \<and> xs = []")
  case True
  then have "startSort algorithm (init xs) = Some (Threw (init xs))"
    by (simp add: startSort_heap_empty)
  then show ?thesis by (simp add: init_def)
next
  case False
  then have "algorithm \<noteq> ''heap'' \<or> 0 < len (init xs)" by auto
  from startSort_run [OF assms this] obtain t where
    "startSort algorithm (init xs) = Some (Ok (after (init xs) t))" by auto
  with run_synced [of xs t] show ?thesis by simp
qed

theorem trace_and_array_never_diverge_witness:
  "''merge'' \<in> set algorithms \<and>
   (\<exists>r. startSort ''merge'' (init [Num 3, Num 1, Num 2]) = Some r \<and>
        replay (trace (final r)) [Num 3, Num 1, Num 2] = heights (final r) \<and>
        bars (final r) = heights (final r) \<and>
        map fst (shots (final r)) = replays (trace (final r)) [Num 3, Num 1, Num 2] \<and>
        map snd (shots (final r)) = replays (trace (final r)) [Num 3, Num 1, Num 2])"
  using trace_and_array_never_diverge [of "''merge''" "[Num 3, Num 1, Num 2]"]
  by (simp add: algorithms_def)

text \<open>
  Claim C3, amended. For every input array of length \<open>N\<close>, every mark of every algorithm
  names an index in \<open>[0, N)\<close>, and:
  \<^item> bubble, selection, heap and shell sort emit exactly \<open>N\<close> marks, one for each index,
    and none of them writes an index after it has marked it;
  \<^item> quick sort marks no index twice and writes no index after it has marked it (it
    marks one index for each call of \<^verbatim>\<open>partition\<close>);
  \<^item> insertion sort emits \<open>N - 1\<close> marks, one for each pass of its outer loop (none
    for \<open>N = 0\<close>);
  \<^item> merge sort emits the marks \<open>merge_marks 0 (N - 1)\<close>: every call of \<^verbatim>\<open>merge\<close> marks
    each slot of its range.
\<close>

theorem marks_of_each_algorithm:
  assumes "algorithm \<in> set algorithms"
  shows "\<exists>r. startSort algorithm (init xs) = Some r \<and>
             set (marks (trace (final r))) \<subseteq> {0..<int (length xs)} \<and>
             (algorithm \<in> {''bubble'', ''selection'', ''heap'', ''shell''} \<longrightarrow>
                length (marks (trace (final r))) = length xs \<and>
                distinct (marks (trace (final r))) \<and>
                set (marks (trace (final r))) = {0..<int (length xs)} \<and>
                settled (trace (final r))) \<and>
             (algorithm = ''quick'' \<longrightarrow>
                distinct (marks (trace (final r))) \<and> settled (trace (final r))) \<and>
             (algorithm = ''insertion'' \<longrightarrow>
                length (marks (trace (final r))) = length xs - 1) \<and>
             (algorithm = ''merge'' \<longrightarrow>
                marks (trace (final r)) = merge_marks 0 (int (length xs) - 1))"
proof -
  have four: ?thesis
    if a: "algorithm \<in> {''bubble'', ''selection'', ''heap'', ''shell''}"
      and n: "algorithm \<noteq> ''quick''" "algorithm \<noteq> ''insertion''" "algorithm \<noteq> ''merge''"
  proof -
    from startSort_marks_once [OF a, of xs] obtain r where
      "startSort algorithm (init xs) = Some r"
      "length (marks (trace (final r))) = length xs" "distinct (marks (trace (final r)))"
      "set (marks (trace (final r))) = {0..<int (length xs)}" "settled (trace (final r))"
      by blast
    with n show ?thesis by (intro exI [of _ r]) simp
  qed
  from assms show ?thesis
  proof (cases rule: algorithms_cases)
    case 1
    then show ?thesis by (intro four) simp_all
  next
    case 2
    then show ?thesis by (intro four) simp_all
  next
    case 3
    from insertionSort_marks [of xs] obtain t where
      "startSort ''insertion'' (init xs) = Some (Ok (after (init xs) t))"
      "set (marks t) \<subseteq> {0..<int (length xs)}" "length (marks t) = length xs - 1"
      by blast
    with 3 show ?thesis by (intro exI [of _ "Ok (after (init xs) t)"]) simp
  next
    case 4
    from quickSort_marks [of xs] obtain t where
      "startSort ''quick'' (init xs) = Some (Ok (after (init xs) t))"
      "set (marks t) \<subseteq> {0..<int (length xs)}" "distinct (marks t)" "settled t"
      by blast
    with 4 show ?thesis by (intro exI [of _ "Ok (after (init xs) t)"]) simp
  next
    case 5
    from mergeSort_marks [of xs] obtain t where
      "startSort ''merge'' (init xs) = Some (Ok (after (init xs) t))"
      "set (marks t) \<subseteq> {0..<int (length xs)}" "marks t = merge_marks 0 (int (length xs) - 1)"
      by blast
    with 5 show ?thesis by (intro exI [of _ "Ok (after (init xs) t)"]) simp
  next
    case 6
    then show ?thesis by (intro four) simp_all
  next
    case 7
    then show ?thesis by (intro four) simp_all
  qed
qed

theorem marks_of_each_algorithm_witness:
  "(\<exists>r. startSort ''selection'' (init [Num 3, Num 1, Num 2]) = Some r \<and>
        set (marks (trace (final r))) \<subseteq> {0..<int (length [Num 3, Num 1, Num 2])} \<and>
        length (marks (trace (final r))) = length [Num 3, Num 1, Num 2] \<and>
        distinct (marks (trace (final r))) \<and>
        set (marks (trace (final r))) = {0..<int (length [Num 3, Num 1, Num 2])} \<and>
        settled (trace (final r))) \<and>
   (\<exists>r. startSort ''quick'' (init [Num 3, Num 1, Num 2]) = Some r \<and>
        set (marks (trace (final r))) \<subseteq> {0..<int (length [Num 3, Num 1, Num 2])} \<and>
        distinct (marks (trace (final r))) \<and> settled (trace (final r))) \<and>
   (\<exists>r. startSort ''insertion'' (init [Num 3, Num 1, Num 2]) = Some r \<and>
        set (marks (trace (final r))) \<subseteq> {0..<int (length [Num 3, Num 1, Num 2])} \<and>
        length (marks (trace (final r))) = length [Num 3, Num 1, Num 2] - 1) \<and>
   (\<exists>r. startSort ''merge'' (init [Num 3, Num 1, Num 2]) = Some r \<and>
        set (marks (trace (final r))) \<subseteq> {0..<int (length [Num 3, Num 1, Num 2])} \<and>
        marks (trace (final r)) = [0, 1, 0, 1, 2])"
proof -
  have m: "merge_marks 0 2 = [0, 1, 0, 1, 2]" by code_simp
  have a: "''selection'' \<in> set algorithms" "''quick'' \<in> set algorithms"
    "''insertion'' \<in> set algorithms" "''merge'' \<in> set algorithms"
    by (simp_all add: algorithms_def)
  from marks_of_each_algorithm [OF a(1), of "[Num 3, Num 1, Num 2]"]
    marks_of_each_algorithm [OF a(2), of "[Num 3, Num 1, Num 2]"]
    marks_of_each_algorithm [OF a(3), of "[Num 3, Num 1, Num 2]"]
    marks_of_each_algorithm [OF a(4), of "[Num 3, Num 1, Num 2]"]
  show ?thesis by (simp add: m)
qed

text \<open>
  Claim C4, amended. The code validates nothing and has no \<open>InvalidInput\<close> error: a run
  of any of the seven algorithms on an input that holds a non-finite value completes
  normally.
\<close>

theorem non_finite_input_is_not_rejected:
  assumes "\<not> all_finite xs" and "algorithm \<in> set algorithms"
  shows "\<exists>s'. startSort algorithm (init xs) = Some (Ok s')"
proof -
  from assms(1) have "xs \<noteq> []" by (auto simp: all_finite_def)
  then have "algorithm \<noteq> ''heap'' \<or> 0 < len (init xs)" by simp
  from startSort_run [OF assms(2) this] show ?thesis by blast
qed

theorem non_finite_input_is_not_rejected_witness:
  "\<not> all_finite [Num 1, NaN] \<and> ''heap'' \<in> set algorithms \<and>
   (\<exists>s'. startSort ''heap'' (init [Num 1, NaN]) = Some (Ok s'))"
  using non_finite_input_is_not_rejected [of "[Num 1, NaN]" "''heap''"]
  by (simp add: all_finite_def algorithms_def)

text \<open>
  Claim C9. Every run of each of the seven algorithms returns: the result is never
  \<open>None\<close>. It is a normal return, except for heap sort on the empty array, which
  ends by the exception of its last statement.
\<close>

theorem every_run_returns:
  assumes "algorithm \<in> set algorithms"
  shows "\<exists>r. startSort algorithm (init xs) = Some r \<and>
             ((\<exists>s'. r = Ok s') \<or> (r = Threw (init xs) \<and> algorithm = ''heap'' \<and> xs = []))"
proof (cases "algorithm = ''heap'' \<and> xs = []")
  case True
  then have "startSort algorithm (init xs) = Some (Threw (init xs))"
    by (simp add: startSort_heap_empty)
  with True show ?thesis by simp
next
  case False
  then have "algorithm \<noteq> ''heap'' \<or> 0 < len (init xs)" by auto
  from startSort_run [OF assms this] show ?thesis by auto
qed

theorem every_run_returns_witness:
  "''shell'' \<in> set algorithms \<and>
   (\<exists>r. startSort ''shell'' (init [Num 3, NaN, Num 2]) = Some r \<and>
        ((\<exists>s'. r = Ok s') \<or>
         (r = Threw (init [Num 3, NaN, Num 2]) \<and> ''shell'' = ''heap'' \<and> [Num 3, NaN, Num 2] = [])))"
  using every_run_returns [of "''shell''" "[Num 3, NaN, Num 2]"]
  by (simp add: algorithms_def)

text \<open>
  Claim C10. A call of \<^verbatim>\<open>partition\<close> on a range \<open>[low, high]\<close> of the array, of \<^verbatim>\<open>merge\<close>
  on \<open>[left, right]\<close> with \<open>left \<le> mid < right\<close>, and of \<^verbatim>\<open>heapify\<close> with heap size \<open>n\<close>
  writes only inside \<open>[low, high]\<close>, \<open>[left, right]\<close> and \<open>[0, n)\<close>: every write step it
  emits is confined to that range and every other position keeps its value.
\<close>

definition unchanged_outside :: "int set \<Rightarrow> state \<Rightarrow> state \<Rightarrow> bool" where
  "unchanged_outside A s s' =
     (length (heights s') = length (heights s) \<and>
      list_all (\<lambda>k. k \<in> A \<or> heights s' ! nat k = heights s ! nat k) [0..len s - 1])"

lemma unchanged_outside_after:
  "confined A t \<Longrightarrow> unchanged_outside A s (after s t)"
proof -
  assume c: "confined A t"
  have "k \<in> A \<or> replay t (heights s) ! nat k = heights s ! nat k" if "0 \<le> k" for k
    using replay_frame [OF c _ that] by blast
  then show ?thesis
    by (simp add: unchanged_outside_def list_all_iff)
qed

theorem helpers_write_inside_their_range:
  "(0 \<le> low \<and> low \<le> high \<and> high < len s \<longrightarrow>
      (\<exists>p t. partition low high s = Ok (p, after s t) \<and> confined {low..high} t \<and>
             unchanged_outside {low..high} s (after s t))) \<and>
   (0 \<le> left \<and> left \<le> mid \<and> mid < right \<and> right < len s \<longrightarrow>
      (\<exists>t. merge left mid right s = Ok (after s t) \<and> confined {left..right} t \<and>
           unchanged_outside {left..right} s (after s t))) \<and>
   (0 \<le> i \<and> n \<le> len s \<longrightarrow>
      (\<exists>t. heapify n i s = Ok (after s t) \<and> confined {0..<n} t \<and>
           unchanged_outside {0..<n} s (after s t)))"
proof (intro conjI impI)
  assume "0 \<le> low \<and> low \<le> high \<and> high < len s"
  with partition_run [of low high s]
  show "\<exists>p t. partition low high s = Ok (p, after s t) \<and> confined {low..high} t \<and>
             unchanged_outside {low..high} s (after s t)"
    by (auto intro: unchanged_outside_after)
next
  assume "0 \<le> left \<and> left \<le> mid \<and> mid < right \<and> right < len s"
  with merge_run [of left mid right s]
  show "\<exists>t. merge left mid right s = Ok (after s t) \<and> confined {left..right} t \<and>
           unchanged_outside {left..right} s (after s t)"
    by (auto intro: unchanged_outside_after)
next
  assume "0 \<le> i \<and> n \<le> len s"
  with heapify_run [of i n s]
  show "\<exists>t. heapify n i s = Ok (after s t) \<and> confined {0..<n} t \<and>
           unchanged_outside {0..<n} s (after s t)"
    by (auto intro: unchanged_outside_after)
qed

theorem helpers_write_inside_their_range_witness:
  "(\<exists>p t. partition 1 2 (init [Num 5, Num 4, Num 3, Num 9]) =
          Ok (p, after (init [Num 5, Num 4, Num 3, Num 9]) t) \<and> confined {1..2} t \<and>
          unchanged_outside {1..2} (init [Num 5, Num 4, Num 3, Num 9])
            (after (init [Num 5, Num 4, Num 3, Num 9]) t)) \<and>
   (\<exists>t. merge 1 1 2 (init [Num 5, Num 4, Num 3, Num 9]) =
          Ok (after (init [Num 5, Num 4, Num 3, Num 9]) t) \<and> confined {1..2} t \<and>
          unchanged_outside {1..2} (init [Num 5, Num 4, Num 3, Num 9])
            (after (init [Num 5, Num 4, Num 3, Num 9]) t)) \<and>
   (\<exists>t. heapify 3 0 (init [Num 5, Num 4, Num 3, Num 9]) =
          Ok (after (init [Num 5, Num 4, Num 3, Num 9]) t) \<and> confined {0..<3} t \<and>
          unchanged_outside {0..<3} (init [Num 5, Num 4, Num 3, Num 9])
            (after (init [Num 5, Num 4, Num 3, Num 9]) t))"
  using helpers_write_inside_their_range
    [of 1 2 "init [Num 5, Num 4, Num 3, Num 9]" 1 1 2 0 3]
  by simp


text \<open>
  Claim C7, amended. On an array of finite numbers of length \<open>N\<close> that is already in
  non-decreasing order, each of the seven algorithms ends with the array it started
  from, and:
  \<^item> bubble and selection sort emit no swap and no overwrite;
  \<^item> quick sort emits no overwrite, and its only swaps exchange a slot with itself (the
    pivot exchange that ends each call of \<^verbatim>\<open>partition\<close>);
  \<^item> insertion, shell and merge sort emit no swap, and their only overwrites give a
    slot the value it holds;
  \<^item> so for these six no step changes the value of a slot (\<open>quiet\<close>); heap sort is left
    out here, it first builds a max-heap, which moves values;
  \<^item> bubble, selection, heap and shell sort emit exactly \<open>N\<close> marks; insertion sort
    marks the indices \<open>1, \<dots>, N - 1\<close> in this order and quick sort in the reverse order;
    merge sort emits the marks \<open>merge_marks 0 (N - 1)\<close>.
\<close>

theorem sorted_input_is_left_unchanged:
  assumes "all_finite xs" and "sorted_wrt js_le xs" and "algorithm \<in> set algorithms"
  shows "\<exists>r. startSort algorithm (init xs) = Some r \<and> heights (final r) = xs \<and>
             (algorithm \<noteq> ''heap'' \<longrightarrow> quiet (trace (final r)) xs) \<and>
             (algorithm \<in> {''bubble'', ''selection''} \<longrightarrow>
                list_all no_write (trace (final r))) \<and>
             (algorithm = ''quick'' \<longrightarrow> list_all self_swap (trace (final r))) \<and>
             (algorithm \<in> {''insertion'', ''shell'', ''merge''} \<longrightarrow>
                list_all (self_overwrite xs) (trace (final r))) \<and>
             (algorithm \<in> {''bubble'', ''selection'', ''heap'', ''shell''} \<longrightarrow>
                length (marks (trace (final r))) = length xs) \<and>
             (algorithm = ''insertion'' \<longrightarrow>
                marks (trace (final r)) = [1..int (length xs) - 1]) \<and>
             (algorithm = ''quick'' \<longrightarrow>
                marks (trace (final r)) = rev [1..int (length xs) - 1]) \<and>
             (algorithm = ''merge'' \<longrightarrow>
                marks (trace (final r)) = merge_marks 0 (int (length xs) - 1))"
proof -
  have s: "sorted xs" using assms(1,2) by (simp add: sorted_wrt_js_le)
  then have o: "ordered (init xs)" using assms(1) by (simp add: ordered_def)
  have n: "length (marks (trace (final r))) = length xs"
    if "startSort algorithm (init xs) = Some r"
      and "algorithm \<in> {''bubble'', ''selection'', ''heap'', ''shell''}" for r
    using startSort_marks_once [OF that(2), of xs] that(1) by auto
  from assms(3) show ?thesis
  proof (cases rule: algorithms_cases)
    case 1
    from startSort_idle(1) [OF o] obtain t where
      r: "startSort ''bubble'' (init xs) = Some (Ok (after (init xs) t))"
      and t: "still (\<lambda>_. no_write) t xs" by auto
    from n [of "Ok (after (init xs) t)"] r 1 have "length (marks t) = length xs" by simp
    with 1 r still_replay [OF t] still_quiet [OF t] still_shape [OF t] show ?thesis
      by (intro exI [of _ "Ok (after (init xs) t)"]) simp
  next
    case 2
    from startSort_idle(2) [OF o] obtain t where
      r: "startSort ''selection'' (init xs) = Some (Ok (after (init xs) t))"
      and t: "still (\<lambda>_. no_write) t xs" by auto
    from n [of "Ok (after (init xs) t)"] r 2 have "length (marks t) = length xs" by simp
    with 2 r still_replay [OF t] still_quiet [OF t] still_shape [OF t] show ?thesis
      by (intro exI [of _ "Ok (after (init xs) t)"]) simp
  next
    case 3
    from startSort_idle(3) [OF o] obtain t where
      r: "startSort ''insertion'' (init xs) = Some (Ok (after (init xs) t))"
      and t: "still self_overwrite t xs" and m: "marks t = [1..int (length xs) - 1]" by auto
    with 3 still_replay [OF t] still_quiet [OF t] still_shape [OF t] show ?thesis
      by (intro exI [of _ "Ok (after (init xs) t)"]) simp
  next
    case 4
    from startSort_idle(4) [OF o] obtain t where
      r: "startSort ''quick'' (init xs) = Some (Ok (after (init xs) t))"
      and t: "still (\<lambda>_. self_swap) t xs" and m: "marks t = rev [1..int (length xs) - 1]"
      by auto
    with 4 still_replay [OF t] still_quiet [OF t] still_shape [OF t] show ?thesis
      by (intro exI [of _ "Ok (after (init xs) t)"]) simp
  next
    case 5
    from startSort_idle(5) [OF o] obtain t where
      r: "startSort ''merge'' (init xs) = Some (Ok (after (init xs) t))"
      and t: "still self_overwrite t xs" by auto
    from mergeSort_marks [of xs] r have "marks t = merge_marks 0 (int (length xs) - 1)"
      by (auto dest: after_inj)
    with 5 r still_replay [OF t] still_quiet [OF t] still_shape [OF t] show ?thesis
      by (intro exI [of _ "Ok (after (init xs) t)"]) simp
  next
    case 6
    from startSort_sorts [OF assms(3), of "init xs"] assms(1) obtain r where
      r: "startSort algorithm (init xs) = Some r" and "sorted (heights (final r))"
        "mset (heights (final r)) = mset xs"
      by auto
    then have "heights (final r) = xs" using sorted_same_mset [OF s] by simp
    with 6 r n [OF r] show ?thesis by (intro exI [of _ r]) simp
  next
    case 7
    from startSort_idle(6) [OF o] obtain t where
      r: "startSort ''shell'' (init xs) = Some (Ok (after (init xs) t))"
      and t: "still self_overwrite t xs" by auto
    from n [of "Ok (after (init xs) t)"] r 7 have "length (marks t) = length xs" by simp
    with 7 r still_replay [OF t] still_quiet [OF t] still_shape [OF t] show ?thesis
      by (intro exI [of _ "Ok (after (init xs) t)"]) simp
  qed
qed

theorem sorted_input_is_left_unchanged_witness:
  "all_finite [Num 1, Num 2, Num 2] \<and> sorted_wrt js_le [Num 1, Num 2, Num 2] \<and>
   (\<exists>r. startSort ''bubble'' (init [Num 1, Num 2, Num 2]) = Some r \<and>
        heights (final r) = [Num 1, Num 2, Num 2] \<and>
        quiet (trace (final r)) [Num 1, Num 2, Num 2] \<and>
        list_all no_write (trace (final r)) \<and>
        length (marks (trace (final r))) = length [Num 1, Num 2, Num 2]) \<and>
   (\<exists>r. startSort ''quick'' (init [Num 1, Num 2, Num 2]) = Some r \<and>
        heights (final r) = [Num 1, Num 2, Num 2] \<and>
        quiet (trace (final r)) [Num 1, Num 2, Num 2] \<and>
        list_all self_swap (trace (final r)) \<and>
        marks (trace (final r)) = [2, 1]) \<and>
   (\<exists>r. startSort ''insertion'' (init [Num 1, Num 2, Num 2]) = Some r \<and>
        heights (final r) = [Num 1, Num 2, Num 2] \<and>
        quiet (trace (final r)) [Num 1, Num 2, Num 2] \<and>
        list_all (self_overwrite [Num 1, Num 2, Num 2]) (trace (final r)) \<and>
        marks (trace (final r)) = [1, 2]) \<and>
   (\<exists>r. startSort ''merge'' (init [Num 1, Num 2, Num 2]) = Some r \<and>
        heights (final r) = [Num 1, Num 2, Num 2] \<and>
        quiet (trace (final r)) [Num 1, Num 2, Num 2] \<and>
        list_all (self_overwrite [Num 1, Num 2, Num 2]) (trace (final r)) \<and>
        marks (trace (final r)) = [0, 1, 0, 1, 2]) \<and>
   (\<exists>r. startSort ''heap'' (init [Num 1, Num 2, Num 2]) = Some r \<and>
        heights (final r) = [Num 1, Num 2, Num 2] \<and>
        length (marks (trace (final r))) = length [Num 1, Num 2, Num 2])"
proof -
  have a: "all_finite [Num 1, Num 2, Num 2]" by (simp add: all_finite_def)
  have b: "sorted_wrt js_le [Num 1, Num 2, Num 2]" by simp
  have c: "''bubble'' \<in> set algorithms" "''quick'' \<in> set algorithms"
    "''insertion'' \<in> set algorithms" "''merge'' \<in> set algorithms"
    "''heap'' \<in> set algorithms"
    by (simp_all add: algorithms_def)
  have m: "merge_marks 0 2 = [0, 1, 0, 1, 2]" by code_simp
  have u: "[1..2::int] = [1, 2]" by code_simp
  from sorted_input_is_left_unchanged [OF a b c(1)] sorted_input_is_left_unchanged [OF a b c(2)]
    sorted_input_is_left_unchanged [OF a b c(3)] sorted_input_is_left_unchanged [OF a b c(4)]
    sorted_input_is_left_unchanged [OF a b c(5)] a b
  show ?thesis by (simp add: m u)
qed
section \<open>Concrete runs\<close>

text \<open>
  Claim C8. Quick sort on the reverse-sorted input \<open>[9, 7, 5, 3, 1]\<close> performs
  \<open>5 * 4 / 2 = 10\<close> comparisons: every call of \<^verbatim>\<open>partition\<close> puts its pivot at one end
  of its range.
\<close>

theorem quick_reverse_sorted_compares:
  "startSort ''quick'' (init [Num 9, Num 7, Num 5, Num 3, Num 1])
   = Some (Ok \<lparr>heights = [Num 1, Num 3, Num 5, Num 7, Num 9],
         bars = [Num 1, Num 3, Num 5, Num 7, Num 9],
         trace = [Compare 0 4, Compare 1 4, Compare 2 4, Compare 3 4, Swap 0 4, MarkFinal 0,
                  Compare 1 4, Compare 2 4, Compare 3 4, Swap 4 4, MarkFinal 4,
                  Compare 1 3, Compare 2 3, Swap 1 3, MarkFinal 1,
                  Compare 2 3, Swap 3 3, MarkFinal 3],
         shots = zip
           (replays [Compare 0 4, Compare 1 4, Compare 2 4, Compare 3 4, Swap 0 4, MarkFinal 0,
                     Compare 1 4, Compare 2 4, Compare 3 4, Swap 4 4, MarkFinal 4,
                     Compare 1 3, Compare 2 3, Swap 1 3, MarkFinal 1,
                     Compare 2 3, Swap 3 3, MarkFinal 3]
              [Num 9, Num 7, Num 5, Num 3, Num 1])
           (replays [Compare 0 4, Compare 1 4, Compare 2 4, Compare 3 4, Swap 0 4, MarkFinal 0,
                     Compare 1 4, Compare 2 4, Compare 3 4, Swap 4 4, MarkFinal 4,
                     Compare 1 3, Compare 2 3, Swap 1 3, MarkFinal 1,
                     Compare 2 3, Swap 3 3, MarkFinal 3]
              [Num 9, Num 7, Num 5, Num 3, Num 1])\<rparr>) \<and>
   count_compares [Compare 0 4, Compare 1 4, Compare 2 4, Compare 3 4, Swap 0 4, MarkFinal 0,
                   Compare 1 4, Compare 2 4, Compare 3 4, Swap 4 4, MarkFinal 4,
                   Compare 1 3, Compare 2 3, Swap 1 3, MarkFinal 1,
                   Compare 2 3, Swap 3 3, MarkFinal 3]
   = 5 * (5 - 1) div 2"
  by code_simp

text \<open>
  Claim C6, at the input where it fails. Heap sort on the empty array skips both of its
  loops and then calls \<^verbatim>\<open>markAsSorted(bars[0])\<close>; \<^verbatim>\<open>bars[0]\<close> does not exist, the call
  throws.
\<close>

theorem heap_empty_throws:
  "startSort ''heap'' (init []) = Some (Threw (init []))"
  by code_simp

text \<open>
  Claim C5 as stated fails: a name that the \<^verbatim>\<open>switch\<close> does not know raises no error;
  the run completes and nothing has been done.
\<close>

theorem unknown_name_counterexample:
  "''bogo'' \<notin> set algorithms \<and>
   startSort ''bogo'' (init [Num 2, Num 1]) = Some (Ok (init [Num 2, Num 1]))"
  by code_simp

text \<open>
  Claim C5, amended. Dispatching a name that is not one of the seven runs no algorithm:
  the call completes without an error, emits no step and leaves the array as it was.
\<close>

theorem unknown_name_is_noop:
  "algorithm \<notin> set algorithms \<Longrightarrow> startSort algorithm s = Some (Ok s)"
  by (simp add: startSort_def algorithms_def)

theorem unknown_name_is_noop_witness:
  "''bogo'' \<notin> set algorithms \<and>
   startSort ''bogo'' (init [Num 3, NaN]) = Some (Ok (init [Num 3, NaN]))"
  using unknown_name_is_noop [of "''bogo''" "init [Num 3, NaN]"]
  by (simp add: algorithms_def)

text \<open>
  Claim C4 as stated fails: bubble sort on \<open>[NaN, 1]\<close> is not rejected. It compares,
  marks both bars and completes, leaving the array unsorted.
\<close>

theorem nan_input_counterexample:
  "\<not> all_finite [NaN, Num 1] \<and>
   startSort ''bubble'' (init [NaN, Num 1])
   = Some (Ok \<lparr>heights = [NaN, Num 1], bars = [NaN, Num 1],
         trace = [Compare 0 1, MarkFinal 0, MarkFinal 1],
         shots = [([NaN, Num 1], [NaN, Num 1]), ([NaN, Num 1], [NaN, Num 1]),
                  ([NaN, Num 1], [NaN, Num 1])]\<rparr>)"
  by code_simp

text \<open>
  Claim C3 as stated fails: merge sort on three values marks five times, indices
  \<open>0\<close> and \<open>1\<close> twice, since every recursive \<^verbatim>\<open>merge\<close> marks the slots it writes.
\<close>

theorem merge_marks_counterexample:
  "startSort ''merge'' (init [Num 3, Num 1, Num 2])
   = Some (Ok \<lparr>heights = [Num 1, Num 2, Num 3], bars = [Num 1, Num 2, Num 3],
         trace = [Compare 0 1, Overwrite 0 (Num 1), MarkFinal 0, Overwrite 1 (Num 3),
                  MarkFinal 1, Compare 0 2, Overwrite 0 (Num 1), MarkFinal 0, Compare 1 2,
                  Overwrite 1 (Num 2), MarkFinal 1, Overwrite 2 (Num 3), MarkFinal 2],
         shots = zip
           (replays [Compare 0 1, Overwrite 0 (Num 1), MarkFinal 0, Overwrite 1 (Num 3),
                     MarkFinal 1, Compare 0 2, Overwrite 0 (Num 1), MarkFinal 0, Compare 1 2,
                     Overwrite 1 (Num 2), MarkFinal 1, Overwrite 2 (Num 3), MarkFinal 2]
              [Num 3, Num 1, Num 2])
           (replays [Compare 0 1, Overwrite 0 (Num 1), MarkFinal 0, Overwrite 1 (Num 3),
                     MarkFinal 1, Compare 0 2, Overwrite 0 (Num 1), MarkFinal 0, Compare 1 2,
                     Overwrite 1 (Num 2), MarkFinal 1, Overwrite 2 (Num 3), MarkFinal 2]
              [Num 3, Num 1, Num 2])\<rparr>) \<and>
   marks [Compare 0 1, Overwrite 0 (Num 1), MarkFinal 0, Overwrite 1 (Num 3),
          MarkFinal 1, Compare 0 2, Overwrite 0 (Num 1), MarkFinal 0, Compare 1 2,
          Overwrite 1 (Num 2), MarkFinal 1, Overwrite 2 (Num 3), MarkFinal 2]
   = [0, 1, 0, 1, 2]"
  by code_simp

text \<open>
  Claim C7 as stated fails: on the sorted input \<open>[1, 2]\<close> heap sort first builds a
  max-heap, so its first swap changes both slots.
\<close>

theorem heap_sorted_input_counterexample:
  "startSort ''heap'' (init [Num 1, Num 2])
   = Some (Ok \<lparr>heights = [Num 1, Num 2], bars = [Num 1, Num 2],
         trace = [Compare 1 0, Swap 0 1, Swap 0 1, MarkFinal 1, MarkFinal 0],
         shots = [([Num 1, Num 2], [Num 1, Num 2]), ([Num 2, Num 1], [Num 2, Num 1]),
                  ([Num 1, Num 2], [Num 1, Num 2]), ([Num 1, Num 2], [Num 1, Num 2]),
                  ([Num 1, Num 2], [Num 1, Num 2])]\<rparr>) \<and>
   \<not> quiet [Compare 1 0, Swap 0 1, Swap 0 1, MarkFinal 1, MarkFinal 0] [Num 1, Num 2]"
  by code_simp

text \<open>
  Insertion sort marks the slot where each pass ends: on \<open>[3, 2, 1]\<close> index \<open>0\<close> is
  marked twice and written after its first mark, and indices \<open>1\<close> and \<open>2\<close> are never
  marked.
\<close>

lemma insertion_marks_repeat:
  "marks (trace (final (insertionSort (init [Num 3, Num 2, Num 1])))) = [0, 0]"
  "\<not> settled (trace (final (insertionSort (init [Num 3, Num 2, Num 1]))))"
  by code_simp+
end
